theory Spec2Isabelle
  imports Main
begin

text \<open>
  The program reads a roster of participants from a spreadsheet, renders a certificate as
  a PDF for every participant whose address is not yet in the ledger of sent e-mails, mails
  it, and appends the address to the ledger. The model follows \<open>index.js\<close>, the variant
  that keeps the ledger. Pure functions are HOL functions; the files are fields of a state
  that is passed along; the browser page, the mail transport and the append to the ledger
  file are calls into an outside world that decides how each call ends; what a function
  does is returned with its result, as the list of its events in order.
\<close>

section \<open>JavaScript strings\<close>

text \<open>
  A JavaScript string is modelled as a \<^typ>\<open>string\<close>: a list of code units, here the
  code units below 256 (Latin-1). \<open>undefined\<close> is \<open>None\<close> of \<^typ>\<open>string option\<close>.
\<close>

type_synonym jsval = "string option"

definition LF :: char where
  "LF = CHR 0x0A"

text \<open>The white space and line terminators that \<open>String.prototype.trim\<close> strips
  (TAB, LF, VT, FF, CR, SP, NBSP).\<close>

definition isWhiteSpace :: "char \<Rightarrow> bool" where
  "isWhiteSpace c = (c \<in> {CHR 0x09, CHR 0x0A, CHR 0x0B, CHR 0x0C, CHR 0x0D, CHR 0x20, CHR 0xA0})"

definition js_trim :: "string \<Rightarrow> string" where
  "js_trim s = rev (dropWhile isWhiteSpace (rev (dropWhile isWhiteSpace s)))"

text \<open>\<open>String.prototype.toLowerCase\<close> on Latin-1: A-Z and the accented capitals
  0xC0-0xDE (the multiplication sign 0xD7 apart) move up by 32.\<close>

definition toLowerChar :: "char \<Rightarrow> char" where
  "toLowerChar c =
     (let n = (of_char c :: nat)
      in if (65 \<le> n \<and> n \<le> 90) \<or> (192 \<le> n \<and> n \<le> 222 \<and> n \<noteq> 215)
         then char_of (n + 32) else c)"

definition js_toLowerCase :: "string \<Rightarrow> string" where
  "js_toLowerCase s = map toLowerChar s"

text \<open>\<open>s.split(sep)\<close> for a separator of one character: never the empty list.\<close>

fun js_split :: "char \<Rightarrow> string \<Rightarrow> string list" where
  "js_split sep [] = [[]]"
| "js_split sep (c # cs) =
     (if c = sep then [] # js_split sep cs
      else (case js_split sep cs of
              [] \<Rightarrow> [[c]]
            | x # xs \<Rightarrow> (c # x) # xs))"

text \<open>Truthiness of a value that is a string or \<open>undefined\<close>.\<close>

fun truthy :: "jsval \<Rightarrow> bool" where
  "truthy None = False"
| "truthy (Some s) = (s \<noteq> [])"

section \<open>The ledger of sent e-mails\<close>

text \<open>
  The file \<open>sent_emails.txt\<close> is \<open>None\<close> when it does not exist and \<open>Some data\<close>
  otherwise. Reading is taken to succeed; an append may throw, as the outside world
  decides (see \<open>addSentEmail\<close> below).
\<close>

type_synonym ledger_file = "string option"

definition loadSentEmails :: "ledger_file \<Rightarrow> string set" where
  "loadSentEmails file =
     (case file of
        None \<Rightarrow> {}
      | Some data \<Rightarrow>
          (let emails = filter (\<lambda>email. js_trim email \<noteq> []) (js_split LF data)
           in set (map (\<lambda>email. js_toLowerCase (js_trim email)) emails)))"

definition contents :: "ledger_file \<Rightarrow> string" where
  "contents file = (case file of None \<Rightarrow> [] | Some data \<Rightarrow> data)"

text \<open>The file after an \<open>fs.appendFileSync\<close> that returned: the data are at the end, and
  the file is there even if it was not before.\<close>

definition appendFileSync :: "ledger_file \<Rightarrow> string \<Rightarrow> ledger_file" where
  "appendFileSync file data = Some (contents file @ data)"

text \<open>The text that \<open>addSentEmail\<close> appends for an address:
  \<open>`${email.toLowerCase().trim()}\n`\<close>.\<close>

definition ledger_line :: "string \<Rightarrow> string" where
  "ledger_line e = js_trim (js_toLowerCase e) @ [LF]"

text \<open>
  A ledger file made of complete lines: absent, empty, or ending in a line feed. Every
  file that only \<open>addSentEmail\<close> has written is of this kind.
\<close>

definition complete_lines :: "ledger_file \<Rightarrow> bool" where
  "complete_lines file = (case file of None \<Rightarrow> True | Some data \<Rightarrow> data = [] \<or> last data = LF)"

abbreviation normalized :: "string \<Rightarrow> string" where
  "normalized e \<equiv> js_trim (js_toLowerCase e)"

section \<open>More of JavaScript's strings\<close>

text \<open>\<open>String(v)\<close>, as a template literal and \<open>replace\<close> apply it to a value.\<close>

fun js_String :: "jsval \<Rightarrow> string" where
  "js_String None = ''undefined''"
| "js_String (Some s) = s"

text \<open>
  \<open>s.replace(pattern, replacement)\<close> with a string pattern: the first occurrence only,
  and the replacement text is expanded as ECMAScript's GetSubstitution does with no
  capture groups: \<open>$$\<close> is a dollar sign, \<open>$&\<close> the matched text, \<open>$`\<close> the text
  preceding the match, \<open>$'\<close> the text following it.
\<close>

fun find_first :: "string \<Rightarrow> string \<Rightarrow> (string \<times> string) option" where
  "find_first pat [] = (if pat = [] then Some ([], []) else None)"
| "find_first pat (c # cs) =
     (if take (length pat) (c # cs) = pat then Some ([], drop (length pat) (c # cs))
      else (case find_first pat cs of
              None \<Rightarrow> None
            | Some (pre, post) \<Rightarrow> Some (c # pre, post)))"

fun getSubstitution :: "string \<Rightarrow> string \<Rightarrow> string \<Rightarrow> string \<Rightarrow> string" where
  "getSubstitution matched pre post [] = []"
| "getSubstitution matched pre post [c] = [c]"
| "getSubstitution matched pre post (c # d # r) =
     (if c = CHR 0x24 \<and> d = CHR 0x24 then CHR 0x24 # getSubstitution matched pre post r
      else if c = CHR 0x24 \<and> d = CHR 0x26 then matched @ getSubstitution matched pre post r
      else if c = CHR 0x24 \<and> d = CHR 0x60 then pre @ getSubstitution matched pre post r
      else if c = CHR 0x24 \<and> d = CHR 0x27 then post @ getSubstitution matched pre post r
      else c # getSubstitution matched pre post (d # r))"

definition js_replace :: "string \<Rightarrow> string \<Rightarrow> string \<Rightarrow> string" where
  "js_replace s pat repl =
     (case find_first pat s of
        None \<Rightarrow> s
      | Some (pre, post) \<Rightarrow> pre @ getSubstitution pat pre post repl @ post)"

section \<open>Paths\<close>

text \<open>
  Node's POSIX \<open>path.resolve(p)\<close> for a working directory \<open>cwd\<close> that is an absolute
  path: a relative \<open>p\<close> is put under \<open>cwd\<close>, empty and \<open>.\<close> segments are dropped and
  \<open>..\<close> removes the segment in front of it. \<open>path.basename\<close> is the last segment.
\<close>

definition normalize_step :: "string list \<Rightarrow> string \<Rightarrow> string list" where
  "normalize_step acc seg =
     (if seg = [] \<or> seg = ''.'' then acc
      else if seg = ''..'' then butlast acc
      else acc @ [seg])"

fun join_segments :: "string list \<Rightarrow> string" where
  "join_segments [] = []"
| "join_segments [seg] = seg"
| "join_segments (seg # segs) = seg @ ''/'' @ join_segments segs"

definition path_resolve :: "string \<Rightarrow> string \<Rightarrow> string" where
  "path_resolve cwd p =
     (let full = (if p \<noteq> [] \<and> hd p = CHR ''/'' then p else cwd @ ''/'' @ p)
      in ''/'' @ join_segments (foldl normalize_step [] (js_split (CHR ''/'') full)))"

definition path_basename :: "string \<Rightarrow> string" where
  "path_basename p =
     (case filter (\<lambda>seg. seg \<noteq> []) (js_split (CHR ''/'') p) of
        [] \<Rightarrow> []
      | seg # segs \<Rightarrow> last (seg # segs))"

section \<open>Participants and the roster\<close>

record participant =
  code :: jsval
  name :: jsval
  registration :: jsval
  email :: jsval

text \<open>The header names the rows are read by (Latin-1 code units for the accented letters).\<close>

definition col_code :: string where
  "col_code = ''C'' @ [CHR 0xF3] @ ''digo de Presen'' @ [CHR 0xE7] @ ''a''"

definition col_name :: string where
  "col_name = ''Nome Completo''"

definition col_registration :: string where
  "col_registration = ''Matr'' @ [CHR 0xED] @ ''cula''"

definition col_email :: string where
  "col_email = ''Endere'' @ [CHR 0xE7] @ ''o de e-mail''"

text \<open>
  A row is the object the CSV parser hands to the \<open>data\<close> handler: header name to cell.
  Reading a key the object does not have gives \<open>undefined\<close>.
\<close>

type_synonym row = "string \<rightharpoonup> string"

definition toParticipant :: "row \<Rightarrow> participant" where
  "toParticipant r =
     \<lparr>code = r col_code, name = r col_name, registration = r col_registration, email = r col_email\<rparr>"

text \<open>The parser's stream is the sequence of events it emits; the HTTP response is
  either a failure of \<open>fetch\<close> itself or a status with that stream as its body.\<close>

datatype csv_event = Data row | End | Error string

datatype response = NetworkError string | Http bool "csv_event list"

datatype 'a promise = Pending | Resolved 'a | Rejected string

section \<open>Effects\<close>

record mail_options =
  mail_from :: string
  mail_to :: jsval
  subject :: string
  mail_text :: string
  att_filename :: string
  att_path :: string

text \<open>Calls into the browser page, the mail transport and the file system (the append
  of a text to the ledger file): each may throw.\<close>

datatype call =
    Goto string
  | SetContent string
  | Pdf string
  | SendMail mail_options
  | AppendFile string

datatype message =
    LedgerCount nat
  | Reading
  | CsvLoaded nat
  | ReadyToReceive nat
  | CsvError string
  | Generating nat
  | GeneratingFor string
  | SavedAt string
  | RenderFailed string string
  | AllGenerated
  | NothingToSend
  | StartSending
  | Sent string
  | SendFailed string string
  | AllProcessed
  | Unexpected string
  | Finished

text \<open>What a run does, in order: a console line, a call with its outcome (\<open>None\<close>:
  it returned, \<open>Some err\<close>: it threw \<open>err\<close>), a wait of so many milliseconds.\<close>

datatype event = Console message | Ext call "string option" | Delay nat

text \<open>
  The state a run works on: the ledger file, the template files (by resolved path), the
  PDF files written (path to the HTML printed), and the state of the outside world that
  decides how the calls end. A PDF path ends in \<open>.pdf\<close>, so the three kinds of file are
  kept apart.
\<close>

record 'x world =
  ledger :: ledger_file
  templates :: "string \<rightharpoonup> string"
  pdfs :: "string \<rightharpoonup> string"
  ext :: 'x

record 'x env =
  cwd :: string
  username :: string
  account :: string
  outside :: "'x \<Rightarrow> call \<Rightarrow> string option \<times> 'x"

definition perform :: "'x env \<Rightarrow> call \<Rightarrow> 'x world \<Rightarrow> string option \<times> 'x world \<times> event list" where
  "perform env c w = (case outside env (ext w) c of (r, x') \<Rightarrow> (r, w\<lparr>ext := x'\<rparr>, [Ext c r]))"

text \<open>
  \<open>addSentEmail\<close>: one \<open>fs.appendFileSync\<close> of the line of the address. When the
  call throws (no permission, no space, a read-only file system) the exception goes to the
  caller and the file is taken to be as it was; when it returns the line is in the file.
\<close>

definition addSentEmail ::
  "'x env \<Rightarrow> string \<Rightarrow> 'x world \<Rightarrow> string option \<times> 'x world \<times> event list" where
  "addSentEmail env address w =
     (case perform env (AppendFile (ledger_line address)) w of
        (Some err, w1, evs) \<Rightarrow> (Some err, w1, evs)
      | (None, w1, evs) \<Rightarrow>
          (None, w1\<lparr>ledger := appendFileSync (ledger w1) (ledger_line address)\<rparr>, evs))"

section \<open>Reading the roster\<close>

text \<open>The filter of the \<open>end\<close> handler:
  \<open>p.email && !sentEmails.has(p.email.toLowerCase().trim())\<close>.\<close>

definition is_new :: "string set \<Rightarrow> participant \<Rightarrow> bool" where
  "is_new sentEmails p =
     (case email p of
        None \<Rightarrow> False
      | Some e \<Rightarrow> e \<noteq> [] \<and> js_trim (js_toLowerCase e) \<notin> sentEmails)"

text \<open>
  The three handlers of \<open>lerCSV\<close>, on the rows pushed so far, the state of the promise
  and the console lines written. A promise is settled once: \<open>resolve\<close> and \<open>reject\<close> on
  a settled promise change nothing.
\<close>

fun on_event ::
  "string set \<Rightarrow> participant list \<times> participant list promise \<times> event list \<Rightarrow> csv_event
     \<Rightarrow> participant list \<times> participant list promise \<times> event list" where
  "on_event sentEmails (results, settled, evs) (Data r) =
     (results @ [toParticipant r], settled, evs)"
| "on_event sentEmails (results, settled, evs) End =
     (let newParticipants = filter (is_new sentEmails) results
      in (results,
          (if settled = Pending then Resolved newParticipants else settled),
          evs @ [Console (CsvLoaded (length results)),
                 Console (ReadyToReceive (length newParticipants))]))"
| "on_event sentEmails (results, settled, evs) (Error err) =
     (results,
      (if settled = Pending then Rejected err else settled),
      evs @ [Console (CsvError err)])"

definition lerCSV :: "string set \<Rightarrow> response \<Rightarrow> participant list promise \<times> event list" where
  "lerCSV sentEmails resp =
     (case resp of
        NetworkError err \<Rightarrow> (Rejected err, [Console Reading])
      | Http ok body \<Rightarrow>
          if \<not> ok then (Rejected ''Erro ao consultar a planilha.'', [Console Reading])
          else (case foldl (on_event sentEmails) ([], Pending, []) body of
                  (results, settled, evs) \<Rightarrow> (settled, Console Reading # evs)))"

section \<open>Rendering\<close>

record certificado =
  participant :: participant
  certificate :: string

definition pdf_name :: "participant \<Rightarrow> string" where
  "pdf_name p = js_String (name p) @ '' - ('' @ js_String (email p) @ '').pdf''"

definition gerarPDF ::
  "'x env \<Rightarrow> string \<Rightarrow> participant \<Rightarrow> 'x world \<Rightarrow> (string + string) \<times> 'x world \<times> event list" where
  "gerarPDF env templateName p w =
     (let ev0 = [Console (GeneratingFor (js_String (name p)))];
          filePath = path_resolve (cwd env) (''./templates/'' @ templateName)
      in case perform env (Goto (''file://'' @ filePath)) w of
           (Some err, w1, ev1) \<Rightarrow> (Inl err, w1, ev0 @ ev1)
         | (None, w1, ev1) \<Rightarrow>
             (case templates w1 filePath of
                None \<Rightarrow>
                  (Inl (''ENOENT: no such file or directory, open '' @ [CHR 0x27] @ filePath
                     @ [CHR 0x27]), w1, ev0 @ ev1)
              | Some content \<Rightarrow>
                  (let html = js_replace content ''{{participant.name}}'' (js_String (name p))
                   in case perform env (SetContent html) w1 of
                        (Some err, w2, ev2) \<Rightarrow> (Inl err, w2, ev0 @ ev1 @ ev2)
                      | (None, w2, ev2) \<Rightarrow>
                          (let pdfPath = path_resolve (cwd env) (''./pdfs/'' @ pdf_name p)
                           in case perform env (Pdf pdfPath) w2 of
                                (Some err, w3, ev3) \<Rightarrow> (Inl err, w3, ev0 @ ev1 @ ev2 @ ev3)
                              | (None, w3, ev3) \<Rightarrow>
                                  (Inr pdfPath,
                                   w3\<lparr>pdfs := (pdfs w3)(pdfPath \<mapsto> html)\<rparr>,
                                   ev0 @ ev1 @ ev2 @ ev3 @ [Console (SavedAt pdfPath)])))))"

text \<open>The loop of \<open>gerarCertificados\<close>: a participant whose rendering throws is
  reported and left out, and the loop goes on.\<close>

fun gerar_loop ::
  "'x env \<Rightarrow> participant list \<Rightarrow> certificado list \<Rightarrow> 'x world
     \<Rightarrow> certificado list \<times> 'x world \<times> event list" where
  "gerar_loop env [] certificates w = (certificates, w, [])"
| "gerar_loop env (p # ps) certificates w =
     (case gerarPDF env ''certificate.html'' p w of
        (Inr pdfPath, w1, ev1) \<Rightarrow>
          (case gerar_loop env ps (certificates @ [\<lparr>participant = p, certificate = pdfPath\<rparr>]) w1 of
             (cs, w2, ev2) \<Rightarrow> (cs, w2, ev1 @ ev2))
      | (Inl err, w1, ev1) \<Rightarrow>
          (case gerar_loop env ps certificates w1 of
             (cs, w2, ev2) \<Rightarrow>
               (cs, w2, ev1 @ Console (RenderFailed (js_String (name p)) err) # ev2)))"

definition gerarCertificados ::
  "'x env \<Rightarrow> participant list \<Rightarrow> 'x world \<Rightarrow> certificado list \<times> 'x world \<times> event list" where
  "gerarCertificados env participants w =
     (if participants = [] then ([], w, [])
      else (case gerar_loop env participants [] w of
              (cs, w1, evs) \<Rightarrow>
                (cs, w1, Console (Generating (length participants)) # evs @ [Console AllGenerated])))"

section \<open>Sending\<close>

definition mail_subject :: string where
  "mail_subject = ''Certificado de Participa'' @ [CHR 0xE7, CHR 0xE3]
     @ ''o - Webinar: Planejamento de Carreira em TI''"

definition mailOptions :: "'x env \<Rightarrow> certificado \<Rightarrow> mail_options" where
  "mailOptions env c =
     \<lparr>mail_from = [CHR 0x22] @ username env @ [CHR 0x22] @ '' <'' @ account env @ ''>'',
      mail_to = email (participant c),
      subject = mail_subject,
      mail_text = ''Ol'' @ [CHR 0xE1] @ '' '' @ js_String (name (participant c)) @ '','' @ [LF, LF]
        @ ''Segue seu certificado de participa'' @ [CHR 0xE7, CHR 0xE3] @ ''o em anexo.''
        @ [LF, LF] @ ''Abra'' @ [CHR 0xE7] @ ''o!'',
      att_filename = path_basename (certificate c),
      att_path = certificate c\<rparr>"

text \<open>
  The loop of \<open>enviarCertificadosPorEmail\<close>. Inside the \<open>try\<close>: the send, the console
  line, \<open>addSentEmail\<close>, the wait of 1000 ms. Whatever throws there, the send or the
  append, the \<open>catch\<close> reports it as an error of the send and the loop goes on with the
  next certificate, without the wait. \<open>addSentEmail\<close> of \<open>undefined\<close> throws a TypeError
  at \<open>email.toLowerCase()\<close>, before any call of the file system, and the same \<open>catch\<close>
  takes it.
\<close>

fun enviar_loop :: "'x env \<Rightarrow> certificado list \<Rightarrow> 'x world \<Rightarrow> 'x world \<times> event list" where
  "enviar_loop env [] w = (w, [])"
| "enviar_loop env (c # cs) w =
     (let to = js_String (email (participant c))
      in case perform env (SendMail (mailOptions env c)) w of
           (Some err, w1, ev1) \<Rightarrow>
             (case enviar_loop env cs w1 of
                (w2, ev2) \<Rightarrow> (w2, ev1 @ Console (SendFailed to err) # ev2))
         | (None, w1, ev1) \<Rightarrow>
             (case email (participant c) of
                None \<Rightarrow>
                  (case enviar_loop env cs w1 of
                     (w2, ev2) \<Rightarrow>
                       (w2, ev1 @ Console (Sent to) # Console (SendFailed to ''TypeError'') # ev2))
              | Some e \<Rightarrow>
                  (case addSentEmail env e w1 of
                     (Some err, w2, ev2) \<Rightarrow>
                       (case enviar_loop env cs w2 of
                          (w3, ev3) \<Rightarrow>
                            (w3, ev1 @ Console (Sent to) # ev2 @ Console (SendFailed to err) # ev3))
                   | (None, w2, ev2) \<Rightarrow>
                       (case enviar_loop env cs w2 of
                          (w3, ev3) \<Rightarrow>
                            (w3, ev1 @ Console (Sent to) # ev2 @ Delay 1000 # ev3)))))"

definition enviarCertificadosPorEmail ::
  "'x env \<Rightarrow> certificado list \<Rightarrow> 'x world \<Rightarrow> 'x world \<times> event list" where
  "enviarCertificadosPorEmail env certificados w =
     (if certificados = [] then (w, [Console NothingToSend])
      else (case enviar_loop env certificados w of
              (w1, evs) \<Rightarrow> (w1, Console StartSending # evs @ [Console AllProcessed])))"

section \<open>The run\<close>

text \<open>
  \<open>main\<close> from the loading of the ledger on: the requirements were checked and the
  browser page is open. When the promise of \<open>lerCSV\<close> never settles nothing more
  happens; when it is rejected the \<open>catch\<close> of \<open>main\<close> reports it. The console lines of
  the parser's handlers are listed before what \<open>main\<close> does next, also the lines of
  events that the stream delivers after the one that settled the promise.
\<close>

definition main :: "'x env \<Rightarrow> response \<Rightarrow> 'x world \<Rightarrow> 'x world \<times> event list" where
  "main env resp w =
     (let sentEmails = loadSentEmails (ledger w);
          ev0 = [Console (LedgerCount (card sentEmails))]
      in case lerCSV sentEmails resp of
           (Pending, ev1) \<Rightarrow> (w, ev0 @ ev1)
         | (Rejected err, ev1) \<Rightarrow> (w, ev0 @ ev1 @ [Console (Unexpected err), Console Finished])
         | (Resolved participants, ev1) \<Rightarrow>
             (case gerarCertificados env participants w of
                (certificados, w1, ev2) \<Rightarrow>
                  (case enviarCertificadosPorEmail env certificados w1 of
                     (w2, ev3) \<Rightarrow> (w2, ev0 @ ev1 @ ev2 @ ev3 @ [Console Finished]))))"

section \<open>Observations on a run\<close>

text \<open>The messages handed to the mail transport, in order.\<close>

fun send_attempts :: "event list \<Rightarrow> mail_options list" where
  "send_attempts [] = []"
| "send_attempts (Ext (SendMail m) r # evs) = m # send_attempts evs"
| "send_attempts (ev # evs) = send_attempts evs"

text \<open>What comes next is the end of the loop or the next call of the transport.\<close>

definition next_is_send :: "event list \<Rightarrow> bool" where
  "next_is_send evs = (case evs of [] \<Rightarrow> True | Ext (SendMail m) r # rest \<Rightarrow> True | _ \<Rightarrow> False)"

text \<open>The events of the dispatch: a call of the transport, an append to the ledger
  file, a wait.\<close>

fun dispatch_event :: "event \<Rightarrow> bool" where
  "dispatch_event (Ext (SendMail m) r) = True"
| "dispatch_event (Ext (AppendFile l) r) = True"
| "dispatch_event (Delay n) = True"
| "dispatch_event ev = False"

text \<open>The texts handed to \<open>fs.appendFileSync\<close>, the texts of the appends that returned
  (the ones that are in the file), and the messages the transport accepted, in order.\<close>

fun append_calls :: "event list \<Rightarrow> string list" where
  "append_calls [] = []"
| "append_calls (Ext (AppendFile l) r # evs) = l # append_calls evs"
| "append_calls (ev # evs) = append_calls evs"

fun appended :: "event list \<Rightarrow> string list" where
  "appended [] = []"
| "appended (Ext (AppendFile l) None # evs) = l # appended evs"
| "appended (ev # evs) = appended evs"

fun successes :: "event list \<Rightarrow> mail_options list" where
  "successes [] = []"
| "successes (Ext (SendMail m) None # evs) = m # successes evs"
| "successes (ev # evs) = successes evs"

text \<open>The calls made to the browser page, the transport and the file system, in order.\<close>

fun calls :: "event list \<Rightarrow> call list" where
  "calls [] = []"
| "calls (Ext c r # evs) = c # calls evs"
| "calls (ev # evs) = calls evs"

text \<open>The names for which \<open>gerarPDF\<close> was entered, in order.\<close>

fun render_attempts :: "event list \<Rightarrow> string list" where
  "render_attempts [] = []"
| "render_attempts (Console (GeneratingFor n) # evs) = n # render_attempts evs"
| "render_attempts (ev # evs) = render_attempts evs"



definition pdf_path :: "'x env \<Rightarrow> participant \<Rightarrow> string" where
  "pdf_path env p = path_resolve (cwd env) (''./pdfs/'' @ pdf_name p)"




section \<open>Example runs\<close>

text \<open>A working directory \<open>/app\<close> with a template, rosters of name and address, and
  outside worlds: one where every call succeeds, one whose transport refuses an address,
  one whose printing fails for a path, one whose transport fails on the first send of
  all and works from then on, and one where the ledger file cannot be written.\<close>

definition ex_world :: "'x \<Rightarrow> ledger_file \<Rightarrow> 'x world" where
  "ex_world x ledger_data =
     \<lparr>ledger = ledger_data,
      templates = [''/app/templates/certificate.html'' \<mapsto> ''<h1>{{participant.name}}</h1>''],
      pdfs = Map.empty,
      ext = x\<rparr>"

definition ex_row :: "string \<Rightarrow> string \<Rightarrow> row" where
  "ex_row n e = [col_name \<mapsto> n, col_email \<mapsto> e]"

definition ex_roster :: "row list \<Rightarrow> response" where
  "ex_roster rows = Http True (map Data rows @ [End])"

definition env_ok :: "unit env" where
  "env_ok = \<lparr>cwd = ''/app'', username = ''Org'', account = ''org@gmail.com'',
     outside = (\<lambda>x c. (None, x))\<rparr>"

definition env_refusing :: "string \<Rightarrow> unit env" where
  "env_refusing address = \<lparr>cwd = ''/app'', username = ''Org'', account = ''org@gmail.com'',
     outside = (\<lambda>x c. (case c of
                            SendMail m \<Rightarrow> if mail_to m = Some address then Some ''rejected'' else None
                          | _ \<Rightarrow> None, x))\<rparr>"

definition env_unprintable :: "string \<Rightarrow> unit env" where
  "env_unprintable path = \<lparr>cwd = ''/app'', username = ''Org'', account = ''org@gmail.com'',
     outside = (\<lambda>x c. (case c of
                            Pdf p \<Rightarrow> if p = path then Some ''EACCES'' else None
                          | _ \<Rightarrow> None, x))\<rparr>"

definition env_flaky :: "nat env" where
  "env_flaky = \<lparr>cwd = ''/app'', username = ''Org'', account = ''org@gmail.com'',
     outside = (\<lambda>n c. (case c of
                            SendMail m \<Rightarrow> (if n = 0 then Some ''ECONNRESET'' else None, Suc n)
                          | _ \<Rightarrow> (None, n)))\<rparr>"

definition env_readonly :: "unit env" where
  "env_readonly = \<lparr>cwd = ''/app'', username = ''Org'', account = ''org@gmail.com'',
     outside = (\<lambda>x c. (case c of
                            AppendFile l \<Rightarrow> Some ''EACCES''
                          | _ \<Rightarrow> None, x))\<rparr>"

definition ana_and_bob :: response where
  "ana_and_bob = ex_roster [ex_row ''Ana'' '' Ana@X.com '', ex_row ''Bob'' ''bob@x.com'']"

definition run_refusing_bob :: "unit world \<times> event list" where
  "run_refusing_bob = main (env_refusing ''bob@x.com'') ana_and_bob (ex_world () None)"

definition bob_certificado :: certificado where
  "bob_certificado = \<lparr>participant = toParticipant (ex_row ''Bob'' ''bob@x.com''),
     certificate = ''/app/pdfs/Bob - (bob@x.com).pdf''\<rparr>"


definition ana_certificado :: certificado where
  "ana_certificado = \<lparr>participant = toParticipant (ex_row ''Ana'' '' Ana@X.com ''),
     certificate = ''/app/pdfs/Ana - ( Ana@X.com ).pdf''\<rparr>"

definition run_ok :: "unit world \<times> event list" where
  "run_ok = main env_ok ana_and_bob (ex_world () None)"

definition run_readonly :: "unit world \<times> event list" where
  "run_readonly = main env_readonly ana_and_bob (ex_world () None)"

text \<open>The run made twice in succession against the same roster: the second run starts
  from the files and the outside world the first one left.\<close>

definition rerun :: "'x env \<Rightarrow> response \<Rightarrow> 'x world \<Rightarrow> 'x world \<times> event list" where
  "rerun env resp w = main env resp (fst (main env resp w))"

definition blank_address :: response where
  "blank_address = ex_roster [ex_row ''Eve'' ''  '']"

definition two_line_address :: response where
  "two_line_address = ex_roster [ex_row ''Lea'' (''lea@x.com'' @ [LF] @ ''lea@y.com'')]"

definition ana :: row where
  "ana = ex_row ''Ana'' ''ana@x.com''"

definition bia :: row where
  "bia = ex_row ''Bia'' ''bia@x.com''"

definition caio :: row where
  "caio = ex_row ''Caio'' ''caio@x.com''"



definition no_address_row :: row where
  "no_address_row = [col_name \<mapsto> ''Bob'']"

text \<open>Three renderings in a row where the printing of the second one fails.\<close>

definition bia_unprintable :: "unit env" where
  "bia_unprintable = env_unprintable ''/app/pdfs/Bia - (bia@x.com).pdf''"

definition render_ana :: "(string + string) \<times> unit world \<times> event list" where
  "render_ana = gerarPDF bia_unprintable ''certificate.html'' (toParticipant ana) (ex_world () None)"

definition render_bia :: "(string + string) \<times> unit world \<times> event list" where
  "render_bia = gerarPDF bia_unprintable ''certificate.html'' (toParticipant bia) (fst (snd render_ana))"

definition render_caio :: "(string + string) \<times> unit world \<times> event list" where
  "render_caio = gerarPDF bia_unprintable ''certificate.html'' (toParticipant caio) (fst (snd render_bia))"

text \<open>A participant whose name has two dollar signs in it, and the participant of the
  specification's example.\<close>

definition cash :: participant where
  "cash = \<lparr>code = None, name = Some ''Ca$$h'', registration = None, email = Some ''c@x.com''\<rparr>"

definition ana_silva :: participant where
  "ana_silva = \<lparr>code = None, name = Some ''Ana Silva'', registration = None,
     email = Some ''ana@x.com''\<rparr>"

section \<open>Strings and the ledger file\<close>

lemma char_eq_nat: "(c = d) \<longleftrightarrow> ((of_char c :: nat) = of_char d)"
  by (metis char_of_char)

lemma isWhiteSpace_nat: "isWhiteSpace c \<longleftrightarrow> (of_char c :: nat) \<in> {9, 10, 11, 12, 13, 32, 160}"
  by (simp add: isWhiteSpace_def char_eq_nat [of c])

lemma of_char_toLowerChar:
  "(of_char (toLowerChar c) :: nat) =
     (let n = of_char c in if (65 \<le> n \<and> n \<le> 90) \<or> (192 \<le> n \<and> n \<le> 222 \<and> n \<noteq> 215) then n + 32 else n)"
  by (simp add: toLowerChar_def Let_def)

lemma isWhiteSpace_toLowerChar: "isWhiteSpace (toLowerChar c) = isWhiteSpace c"
  by (auto simp add: isWhiteSpace_nat of_char_toLowerChar Let_def)

lemma toLowerChar_idem: "toLowerChar (toLowerChar c) = toLowerChar c"
  by (auto simp add: char_eq_nat [of "toLowerChar (toLowerChar c)"] of_char_toLowerChar Let_def)

lemma dropWhile_lower: "dropWhile isWhiteSpace (js_toLowerCase s) = js_toLowerCase (dropWhile isWhiteSpace s)"
  by (induction s) (simp_all add: js_toLowerCase_def isWhiteSpace_toLowerChar)

lemma trim_lower: "js_trim (js_toLowerCase s) = js_toLowerCase (js_trim s)"
proof -
  have "rev (js_toLowerCase t) = js_toLowerCase (rev t)" for t
    by (simp add: js_toLowerCase_def rev_map)
  then show ?thesis
    by (simp add: js_trim_def dropWhile_lower)
qed

lemma lower_idem: "js_toLowerCase (js_toLowerCase s) = js_toLowerCase s"
  by (simp add: js_toLowerCase_def toLowerChar_idem)

lemma dropWhile_id: "xs = [] \<or> \<not> P (hd xs) \<Longrightarrow> dropWhile P xs = xs"
  by (cases xs) auto

lemma last_dropWhile: "dropWhile P xs \<noteq> [] \<Longrightarrow> last (dropWhile P xs) = last xs"
  by (induction xs) (auto split: if_splits)

lemma trim_ends:
  assumes "js_trim s \<noteq> []"
  shows "\<not> isWhiteSpace (hd (js_trim s))" and "\<not> isWhiteSpace (last (js_trim s))"
proof -
  define x where "x = dropWhile isWhiteSpace s"
  define y where "y = dropWhile isWhiteSpace (rev x)"
  have t: "js_trim s = rev y" by (simp add: js_trim_def x_def y_def)
  with assms have y: "y \<noteq> []" by simp
  then have x: "x \<noteq> []" by (auto simp add: y_def)
  have "hd (rev y) = last y" using y by (simp add: hd_rev)
  also have "\<dots> = last (rev x)" using y unfolding y_def by (rule last_dropWhile)
  also have "\<dots> = hd x" using x by (simp add: last_rev)
  finally have "hd (js_trim s) = hd x" by (simp add: t)
  moreover have "\<not> isWhiteSpace (hd x)" using x unfolding x_def by (rule hd_dropWhile)
  ultimately show "\<not> isWhiteSpace (hd (js_trim s))" by simp
  have "last (rev y) = hd y" using y by (simp add: last_rev)
  moreover have "\<not> isWhiteSpace (hd y)" using y unfolding y_def by (rule hd_dropWhile)
  ultimately show "\<not> isWhiteSpace (last (js_trim s))" by (simp add: t)
qed

lemma trim_id:
  assumes "u = [] \<or> (\<not> isWhiteSpace (hd u) \<and> \<not> isWhiteSpace (last u))"
  shows "js_trim u = u"
proof (cases "u = []")
  case True
  then show ?thesis by (simp add: js_trim_def)
next
  case False
  with assms have h: "\<not> isWhiteSpace (hd u)" and l: "\<not> isWhiteSpace (last u)" by simp_all
  have 1: "dropWhile isWhiteSpace u = u" using h by (simp add: dropWhile_id)
  have "hd (rev u) = last u" using False by (simp add: hd_rev)
  then have 2: "dropWhile isWhiteSpace (rev u) = rev u" using l by (simp add: dropWhile_id)
  show ?thesis by (simp add: js_trim_def 1 2)
qed

lemma trim_idem: "js_trim (js_trim s) = js_trim s"
  using trim_ends [of s] by (intro trim_id) blast

lemma split_not_Nil: "js_split sep s \<noteq> []"
  by (induction s) (auto split: list.splits)

lemma split_no_sep: "sep \<notin> set s \<Longrightarrow> js_split sep s = [s]"
  by (induction s) auto

lemma split_at_sep: "js_split sep (x @ sep # y) = js_split sep x @ js_split sep y"
proof (induction x)
  case Nil
  show ?case by simp
next
  case (Cons c cs)
  obtain l ls where "js_split sep cs = l # ls"
    using split_not_Nil [of sep cs] by (cases "js_split sep cs") auto
  with Cons show ?case by simp
qed

lemma split_new_line:
  assumes "d = [] \<or> last d = sep" and "sep \<notin> set e"
  shows "set (js_split sep (d @ e @ [sep])) = insert e (set (js_split sep d))"
proof (cases "d = []")
  case True
  then show ?thesis
    using split_at_sep [of sep e "[]"] assms(2) by (auto simp add: split_no_sep)
next
  case False
  with assms(1) obtain d' where d: "d = d' @ [sep]"
    by (metis append_butlast_last_id)
  have "js_split sep (d @ e @ [sep]) = js_split sep d' @ js_split sep (e @ sep # [])"
    using split_at_sep [of sep d' "e @ [sep]"] by (simp add: d)
  also have "\<dots> = js_split sep d' @ [e, []]"
    using split_at_sep [of sep e "[]"] assms(2) by (simp add: split_no_sep)
  finally have 1: "js_split sep (d @ e @ [sep]) = js_split sep d' @ [e, []]" .
  have 2: "js_split sep d = js_split sep d' @ [[]]"
    using split_at_sep [of sep d' "[]"] by (simp add: d)
  show ?thesis by (auto simp add: 1 2)
qed

lemma trim_Nil: "js_trim [] = []"
  by (simp add: js_trim_def)

lemma load_None_or_Nil: "loadSentEmails None = {}" "loadSentEmails (Some []) = {}"
  by (simp_all add: loadSentEmails_def trim_Nil)


lemma load_add:
  assumes "complete_lines file" and "LF \<notin> set (js_trim (js_toLowerCase em))"
  shows "loadSentEmails (appendFileSync file (ledger_line em)) =
           loadSentEmails file \<union> (if js_trim (js_toLowerCase em) = [] then {} else {js_trim (js_toLowerCase em)})"
proof -
  define e where "e = js_trim (js_toLowerCase em)"
  define d where "d = (case file of None \<Rightarrow> [] | Some data \<Rightarrow> data)"
  have d: "d = [] \<or> last d = LF"
    using assms(1) by (auto simp add: d_def complete_lines_def split: option.splits)
  have ld: "loadSentEmails file = loadSentEmails (Some d)"
    by (cases "file") (simp_all add: d_def load_None_or_Nil)
  have te: "js_trim e = e" by (simp add: e_def trim_idem)
  have le: "js_toLowerCase e = e" by (simp add: e_def trim_lower lower_idem)
  have s: "set (js_split LF (d @ e @ [LF])) = insert e (set (js_split LF d))"
    using d assms(2) unfolding e_def [symmetric] by (rule split_new_line)
  have "loadSentEmails (appendFileSync file (ledger_line em)) = loadSentEmails (Some (d @ e @ [LF]))"
    by (simp add: appendFileSync_def ledger_line_def contents_def d_def e_def)
  also have "\<dots> = loadSentEmails (Some d) \<union> (if e = [] then {} else {e})"
  proof -
    have L: "loadSentEmails (Some x) =
        (\<lambda>l. js_toLowerCase (js_trim l)) ` {l \<in> set (js_split LF x). js_trim l \<noteq> []}" for x
      by (simp add: loadSentEmails_def)
    have "{l \<in> insert e (set (js_split LF d)). js_trim l \<noteq> []} =
        (if e = [] then {} else {e}) \<union> {l \<in> set (js_split LF d). js_trim l \<noteq> []}"
      by (auto simp add: te trim_Nil)
    then have "loadSentEmails (Some (d @ e @ [LF])) =
        (\<lambda>l. js_toLowerCase (js_trim l)) ` (if e = [] then {} else {e}) \<union> loadSentEmails (Some d)"
      by (simp only: L s image_Un)
    also have "(\<lambda>l. js_toLowerCase (js_trim l)) ` (if e = [] then {} else {e}) = (if e = [] then {} else {e})"
      by (simp add: te le)
    finally show ?thesis by (simp add: Un_commute)
  qed
  finally show ?thesis by (simp add: ld e_def)
qed

lemma complete_add: "complete_lines (appendFileSync file (ledger_line em))"
  by (simp add: complete_lines_def appendFileSync_def ledger_line_def)

lemma split_new_lines:
  assumes "d = [] \<or> last d = sep"
  shows "set (js_split sep (d @ e @ [sep])) = set (js_split sep d) \<union> set (js_split sep e)"
proof (cases "d = []")
  case True
  then show ?thesis
    using split_at_sep [of sep e "[]"] by auto
next
  case False
  with assms obtain d' where d: "d = d' @ [sep]"
    by (metis append_butlast_last_id)
  have "js_split sep (d @ e @ [sep]) = js_split sep d' @ js_split sep (e @ sep # [])"
    using split_at_sep [of sep d' "e @ [sep]"] by (simp add: d)
  also have "\<dots> = js_split sep d' @ js_split sep e @ [[]]"
    using split_at_sep [of sep e "[]"] by simp
  finally have 1: "js_split sep (d @ e @ [sep]) = js_split sep d' @ js_split sep e @ [[]]" .
  have 2: "js_split sep d = js_split sep d' @ [[]]"
    using split_at_sep [of sep d' "[]"] by (simp add: d)
  show ?thesis by (auto simp add: 1 2)
qed

lemma load_Some:
  "loadSentEmails (Some x) =
     (\<lambda>l. js_toLowerCase (js_trim l)) ` {l \<in> set (js_split LF x). js_trim l \<noteq> []}"
  by (simp add: loadSentEmails_def)

lemma load_add_mono:
  assumes "complete_lines file"
  shows "loadSentEmails file \<subseteq> loadSentEmails (appendFileSync file (ledger_line em))"
proof -
  define d where "d = (case file of None \<Rightarrow> [] | Some data \<Rightarrow> data)"
  have d: "d = [] \<or> last d = LF"
    using assms by (auto simp add: d_def complete_lines_def split: option.splits)
  have ld: "loadSentEmails file = loadSentEmails (Some d)"
    by (cases "file") (simp_all add: d_def load_None_or_Nil)
  have "loadSentEmails (appendFileSync file (ledger_line em))
      = loadSentEmails (Some (d @ normalized em @ [LF]))"
    by (simp add: appendFileSync_def ledger_line_def contents_def d_def)
  moreover have "set (js_split LF d) \<subseteq> set (js_split LF (d @ normalized em @ [LF]))"
    using split_new_lines [OF d] by blast
  ultimately show ?thesis
    unfolding ld load_Some by blast
qed

lemma perform_frame:
  "perform env c w = (r, w', evs) \<Longrightarrow>
     ledger w' = ledger w \<and> templates w' = templates w \<and> pdfs w' = pdfs w \<and> evs = [Ext c r]"
  by (auto simp add: perform_def split: prod.splits)

lemma gerarPDF_frame:
  "gerarPDF env t p w = (r, w', evs) \<Longrightarrow> ledger w' = ledger w \<and> templates w' = templates w"
  by (auto simp add: gerarPDF_def Let_def split: prod.splits option.splits dest!: perform_frame)

lemma gerar_loop_frame:
  "gerar_loop env ps acc w = (cs, w', evs) \<Longrightarrow> ledger w' = ledger w \<and> templates w' = templates w"
proof (induction ps arbitrary: acc w cs w' evs)
  case Nil
  then show ?case by simp
next
  case (Cons p ps)
  then show ?case
    by (auto split: prod.splits sum.splits dest!: gerarPDF_frame) 
qed

lemma gerar_loop_certs:
  "gerar_loop env ps acc w = (cs, w', evs) \<Longrightarrow>
     \<exists>new. cs = acc @ new \<and> participant ` set new \<subseteq> set ps"
proof (induction ps arbitrary: acc w cs w' evs)
  case Nil
  then show ?case by simp
next
  case (Cons p ps)
  obtain r w1 ev1 where g: "gerarPDF env ''certificate.html'' p w = (r, w1, ev1)"
    by (metis prod_cases3)
  show ?case
  proof (cases r)
    case (Inl err)
    with Cons.prems g obtain ev2 where "gerar_loop env ps acc w1 = (cs, w', ev2)"
      by (auto split: prod.splits)
    from Cons.IH [OF this] show ?thesis by auto
  next
    case (Inr pdfPath)
    with Cons.prems g obtain ev2 where
      "gerar_loop env ps (acc @ [\<lparr>participant = p, certificate = pdfPath\<rparr>]) w1 = (cs, w', ev2)"
      by (auto split: prod.splits)
    from Cons.IH [OF this] show ?thesis by (auto simp add: image_subset_iff)
  qed
qed

lemma gerarCertificados_frame:
  "gerarCertificados env ps w = (cs, w', evs) \<Longrightarrow>
     ledger w' = ledger w \<and> templates w' = templates w \<and> participant ` set cs \<subseteq> set ps"
  using gerar_loop_frame [of env ps "[]" w] gerar_loop_certs [of env ps "[]" w]
  by (auto simp add: gerarCertificados_def split: if_splits prod.splits)

section \<open>The loops\<close>

lemma send_attempts_append: "send_attempts (xs @ ys) = send_attempts xs @ send_attempts ys"
  by (induction xs rule: send_attempts.induct) simp_all

lemma addSentEmail_step:
  assumes "addSentEmail env e w = (r, w', evs)"
  shows "evs = [Ext (AppendFile (ledger_line e)) r]"
    and "templates w' = templates w" and "pdfs w' = pdfs w"
    and "ledger w' = (case r of None \<Rightarrow> appendFileSync (ledger w) (ledger_line e)
                      | Some err \<Rightarrow> ledger w)"
  using assms
  by (auto simp add: addSentEmail_def split: prod.splits option.splits dest!: perform_frame)

text \<open>One turn of the loop of the sending: the send throws, the address is undefined,
  the append throws, or the address is recorded.\<close>

lemma enviar_loop_step:
  assumes "enviar_loop env (c # cs) w = (w', evs)"
  obtains
    (failed) err w1 ev2 where
      "ledger w1 = ledger w" "pdfs w1 = pdfs w"
      "enviar_loop env cs w1 = (w', ev2)"
      "evs = Ext (SendMail (mailOptions env c)) (Some err)
               # Console (SendFailed (js_String (email (participant c))) err) # ev2"
  | (no_address) w1 ev2 where
      "ledger w1 = ledger w" "pdfs w1 = pdfs w"
      "email (participant c) = None"
      "enviar_loop env cs w1 = (w', ev2)"
      "evs = Ext (SendMail (mailOptions env c)) None # Console (Sent ''undefined'')
               # Console (SendFailed ''undefined'' ''TypeError'') # ev2"
  | (unrecorded) e err w2 ev2 where
      "ledger w2 = ledger w" "pdfs w2 = pdfs w"
      "email (participant c) = Some e"
      "enviar_loop env cs w2 = (w', ev2)"
      "evs = Ext (SendMail (mailOptions env c)) None # Console (Sent e)
               # Ext (AppendFile (ledger_line e)) (Some err) # Console (SendFailed e err) # ev2"
  | (sent) e w2 ev2 where
      "ledger w2 = appendFileSync (ledger w) (ledger_line e)" "pdfs w2 = pdfs w"
      "email (participant c) = Some e"
      "enviar_loop env cs w2 = (w', ev2)"
      "evs = Ext (SendMail (mailOptions env c)) None # Console (Sent e)
               # Ext (AppendFile (ledger_line e)) None # Delay 1000 # ev2"
proof -
  obtain r w1 ev1 where p: "perform env (SendMail (mailOptions env c)) w = (r, w1, ev1)"
    by (metis prod_cases3)
  then have f: "ev1 = [Ext (SendMail (mailOptions env c)) r]" "ledger w1 = ledger w"
    "pdfs w1 = pdfs w"
    by (simp_all add: perform_frame)
  show thesis
  proof (cases r)
    case (Some err)
    obtain w2 ev2 where l: "enviar_loop env cs w1 = (w2, ev2)"
      by fastforce
    with assms p f Some have "w2 = w'"
      "evs = Ext (SendMail (mailOptions env c)) (Some err)
               # Console (SendFailed (js_String (email (participant c))) err) # ev2"
      by (simp_all add: Let_def)
    with l f show thesis by (auto intro: failed)
  next
    case None
    show thesis
    proof (cases "email (participant c)")
      case N: None
      obtain w2 ev2 where l: "enviar_loop env cs w1 = (w2, ev2)"
        by fastforce
      with assms p f None N have "w2 = w'"
        "evs = Ext (SendMail (mailOptions env c)) None # Console (Sent ''undefined'')
               # Console (SendFailed ''undefined'' ''TypeError'') # ev2"
        by (simp_all add: Let_def)
      with l f N show thesis by (auto intro: no_address)
    next
      case (Some e)
      obtain r2 w2 ev2 where a: "addSentEmail env e w1 = (r2, w2, ev2)"
        by (metis prod_cases3)
      note s = addSentEmail_step [OF a]
      obtain w3 ev3 where l: "enviar_loop env cs w2 = (w3, ev3)"
        by fastforce
      show thesis
      proof (cases r2)
        case R: None
        with assms p f None Some a s(1) l have "w3 = w'"
          "evs = Ext (SendMail (mailOptions env c)) None # Console (Sent e)
               # Ext (AppendFile (ledger_line e)) None # Delay 1000 # ev3"
          by (simp_all add: Let_def)
        moreover from s R f have "ledger w2 = appendFileSync (ledger w) (ledger_line e)"
          "pdfs w2 = pdfs w"
          by simp_all
        ultimately show thesis using l Some by (auto intro: sent)
      next
        case R: (Some err)
        with assms p f None Some a s(1) l have "w3 = w'"
          "evs = Ext (SendMail (mailOptions env c)) None # Console (Sent e)
               # Ext (AppendFile (ledger_line e)) (Some err) # Console (SendFailed e err) # ev3"
          by (simp_all add: Let_def)
        moreover from s R f have "ledger w2 = ledger w" "pdfs w2 = pdfs w"
          by simp_all
        ultimately show thesis using l Some by (auto intro: unrecorded)
      qed
    qed
  qed
qed

lemma enviar_loop_attempts:
  "enviar_loop env cs w = (w', evs) \<Longrightarrow> send_attempts evs = map (mailOptions env) cs"
proof (induction cs arbitrary: w evs)
  case Nil
  then show ?case by simp
next
  case (Cons c cs)
  from Cons.prems show ?case
    by (cases rule: enviar_loop_step) (auto dest: Cons.IH)
qed


lemma enviar_loop_ledger:
  assumes "enviar_loop env cs w = (w', evs)" and "complete_lines (ledger w)"
  shows "complete_lines (ledger w') \<and> loadSentEmails (ledger w) \<subseteq> loadSentEmails (ledger w')"
  using assms
proof (induction cs arbitrary: w evs)
  case Nil
  then show ?case by simp
next
  case (Cons c cs)
  from Cons.prems(1) show ?case
  proof (cases rule: enviar_loop_step)
    case (failed err w1 ev2)
    with Cons.IH [of w1 ev2] Cons.prems(2) show ?thesis by simp
  next
    case (no_address w1 ev2)
    with Cons.IH [of w1 ev2] Cons.prems(2) show ?thesis by simp
  next
    case (unrecorded e err w2 ev2)
    with Cons.IH [of w2 ev2] Cons.prems(2) show ?thesis by simp
  next
    case (sent e w2 ev2)
    have "complete_lines (ledger w2)"
      by (simp add: sent(1) complete_add)
    from Cons.IH [OF sent(4) this] load_add_mono [of "ledger w" e] Cons.prems(2) sent(1)
    show ?thesis by auto
  qed
qed

lemma split_left:
  "xs @ ys = pre @ a # post \<Longrightarrow> a \<notin> set xs \<Longrightarrow> \<exists>pre'. pre = xs @ pre' \<and> ys = pre' @ a # post"
proof (induction xs arbitrary: pre)
  case Nil
  then show ?case by simp
next
  case (Cons x xs)
  then show ?case by (cases pre) auto
qed

lemma split_right:
  "ys @ zs = pre @ a # post \<Longrightarrow> a \<notin> set zs \<Longrightarrow> \<exists>post'. post = post' @ zs \<and> ys = pre @ a # post'"
proof (induction ys arbitrary: pre)
  case Nil
  then show ?case by (metis append_Nil in_set_conv_decomp)
next
  case (Cons y ys)
  then show ?case by (cases pre) auto
qed

lemma enviar_loop_head:
  "enviar_loop env cs w = (w', evs) \<Longrightarrow> evs = [] \<or> (\<exists>m r rest. evs = Ext (SendMail m) r # rest)"
proof (cases cs)
  case Nil
  assume "enviar_loop env cs w = (w', evs)"
  with Nil show ?thesis by simp
next
  case (Cons c cs')
  assume "enviar_loop env cs w = (w', evs)"
  then have "enviar_loop env (c # cs') w = (w', evs)" by (simp add: Cons)
  then show ?thesis by (cases rule: enviar_loop_step) simp_all
qed

lemma enviar_loop_next: "enviar_loop env cs w = (w', evs) \<Longrightarrow> next_is_send evs"
  using enviar_loop_head [of env cs w w' evs] by (auto simp add: next_is_send_def)

lemma mail_to_mailOptions: "mail_to (mailOptions env c) = email (participant c)"
  by (simp add: mailOptions_def)

text \<open>Around a call of \<open>fs.appendFileSync\<close>: before it the send that returned and its
  console line; after it the wait when the call returned, the error report when it threw,
  and then the next send or the end of the loop.\<close>

lemma append_event:
  "enviar_loop env cs w = (w', evs) \<Longrightarrow> evs = pre @ Ext (AppendFile l) r # post \<Longrightarrow>
     \<exists>c e pre' post'. c \<in> set cs \<and> email (participant c) = Some e \<and> l = ledger_line e
        \<and> pre = pre' @ [Ext (SendMail (mailOptions env c)) None, Console (Sent e)]
        \<and> next_is_send post'
        \<and> post = (case r of
                     None \<Rightarrow> Delay 1000 # post'
                   | Some err \<Rightarrow> Console (SendFailed e err) # post')"
proof (induction cs arbitrary: w evs pre)
  case Nil
  then show ?case by simp
next
  case (Cons c cs)
  let ?X = "Ext (AppendFile l) r"
  have lift: ?case
    if "enviar_loop env cs w2 = (w', ev2)" "ev2 = pre2 @ ?X # post" "pre = blk @ pre2"
    for w2 ev2 pre2 blk
  proof -
    from Cons.IH [OF that(1,2)] obtain c0 e0 pre0 post0 where
      "c0 \<in> set cs" "email (participant c0) = Some e0" "l = ledger_line e0"
      "pre2 = pre0 @ [Ext (SendMail (mailOptions env c0)) None, Console (Sent e0)]"
      "next_is_send post0"
      "post = (case r of None \<Rightarrow> Delay 1000 # post0
               | Some err \<Rightarrow> Console (SendFailed e0 err) # post0)"
      by blast
    then have "c0 \<in> set (c # cs) \<and> email (participant c0) = Some e0 \<and> l = ledger_line e0
        \<and> pre = (blk @ pre0) @ [Ext (SendMail (mailOptions env c0)) None, Console (Sent e0)]
        \<and> next_is_send post0
        \<and> post = (case r of None \<Rightarrow> Delay 1000 # post0
                   | Some err \<Rightarrow> Console (SendFailed e0 err) # post0)"
      using that(3) by simp
    then show ?thesis by blast
  qed
  from Cons.prems(1) show ?case
  proof (cases rule: enviar_loop_step)
    case (failed err w1 ev2)
    from failed(4) Cons.prems(2) obtain pre2 where
      "ev2 = pre2 @ ?X # post"
      "pre = [Ext (SendMail (mailOptions env c)) (Some err),
              Console (SendFailed (js_String (email (participant c))) err)] @ pre2"
      by (auto simp add: Cons_eq_append_conv append_eq_Cons_conv)
    from lift [OF failed(3) this] show ?thesis .
  next
    case (no_address w1 ev2)
    from no_address(5) Cons.prems(2) obtain pre2 where
      "ev2 = pre2 @ ?X # post"
      "pre = [Ext (SendMail (mailOptions env c)) None, Console (Sent ''undefined''),
              Console (SendFailed ''undefined'' ''TypeError'')] @ pre2"
      by (auto simp add: Cons_eq_append_conv append_eq_Cons_conv)
    from lift [OF no_address(4) this] show ?thesis .
  next
    case (unrecorded e err w2 ev2)
    note nx = enviar_loop_next [OF unrecorded(4)]
    from unrecorded(5) Cons.prems(2) consider
      (here) "pre = [Ext (SendMail (mailOptions env c)) None, Console (Sent e)]"
        "l = ledger_line e" "r = Some err" "post = Console (SendFailed e err) # ev2"
    | (later) pre2 where "ev2 = pre2 @ ?X # post"
        "pre = [Ext (SendMail (mailOptions env c)) None, Console (Sent e),
                Ext (AppendFile (ledger_line e)) (Some err), Console (SendFailed e err)] @ pre2"
      by (auto simp add: Cons_eq_append_conv append_eq_Cons_conv)
    then show ?thesis
    proof cases
      case here
      with unrecorded(3) nx have "c \<in> set (c # cs) \<and> email (participant c) = Some e
          \<and> l = ledger_line e
          \<and> pre = [] @ [Ext (SendMail (mailOptions env c)) None, Console (Sent e)]
          \<and> next_is_send ev2
          \<and> post = (case r of None \<Rightarrow> Delay 1000 # ev2
                     | Some err \<Rightarrow> Console (SendFailed e err) # ev2)"
        by simp
      then show ?thesis by blast
    next
      case later
      from lift [OF unrecorded(4) later] show ?thesis .
    qed
  next
    case (sent e w2 ev2)
    note nx = enviar_loop_next [OF sent(4)]
    from sent(5) Cons.prems(2) consider
      (here) "pre = [Ext (SendMail (mailOptions env c)) None, Console (Sent e)]"
        "l = ledger_line e" "r = None" "post = Delay 1000 # ev2"
    | (later) pre2 where "ev2 = pre2 @ ?X # post"
        "pre = [Ext (SendMail (mailOptions env c)) None, Console (Sent e),
                Ext (AppendFile (ledger_line e)) None, Delay 1000] @ pre2"
      by (auto simp add: Cons_eq_append_conv append_eq_Cons_conv)
    then show ?thesis
    proof cases
      case here
      with sent(3) nx have "c \<in> set (c # cs) \<and> email (participant c) = Some e
          \<and> l = ledger_line e
          \<and> pre = [] @ [Ext (SendMail (mailOptions env c)) None, Console (Sent e)]
          \<and> next_is_send ev2
          \<and> post = (case r of None \<Rightarrow> Delay 1000 # ev2
                     | Some err \<Rightarrow> Console (SendFailed e err) # ev2)"
        by simp
      then show ?thesis by blast
    next
      case later
      from lift [OF sent(4) later] show ?thesis .
    qed
  qed
qed

text \<open>After a call of the transport: the error report when it threw; the console line
  and then the TypeError, or the call of \<open>fs.appendFileSync\<close>, when it returned.\<close>

lemma send_event:
  "enviar_loop env cs w = (w', evs) \<Longrightarrow> evs = pre @ Ext (SendMail m) r # post \<Longrightarrow>
     \<exists>c post'. c \<in> set cs \<and> m = mailOptions env c \<and>
       (case r of
          Some err \<Rightarrow>
            post = Console (SendFailed (js_String (email (participant c))) err) # post'
            \<and> next_is_send post'
        | None \<Rightarrow>
            (case email (participant c) of
               None \<Rightarrow>
                 post = Console (Sent ''undefined'')
                          # Console (SendFailed ''undefined'' ''TypeError'') # post'
                 \<and> next_is_send post'
             | Some e \<Rightarrow>
                 (\<exists>r2. post = Console (Sent e) # Ext (AppendFile (ledger_line e)) r2 # post')))"
proof (induction cs arbitrary: w evs pre)
  case Nil
  then show ?case by simp
next
  case (Cons c cs)
  let ?X = "Ext (SendMail m) r"
  let ?P = "\<lambda>c post'. m = mailOptions env c \<and>
       (case r of
          Some err \<Rightarrow>
            post = Console (SendFailed (js_String (email (participant c))) err) # post'
            \<and> next_is_send post'
        | None \<Rightarrow>
            (case email (participant c) of
               None \<Rightarrow>
                 post = Console (Sent ''undefined'')
                          # Console (SendFailed ''undefined'' ''TypeError'') # post'
                 \<and> next_is_send post'
             | Some e \<Rightarrow>
                 (\<exists>r2. post = Console (Sent e) # Ext (AppendFile (ledger_line e)) r2 # post')))"
  have lift: ?case if "enviar_loop env cs w2 = (w', ev2)" "ev2 = pre2 @ ?X # post"
    for w2 ev2 pre2
  proof -
    from Cons.IH [OF that] obtain c0 post0 where "c0 \<in> set cs" "?P c0 post0"
      by blast
    then have "c0 \<in> set (c # cs) \<and> ?P c0 post0" by simp
    then show ?thesis by blast
  qed
  have here: ?case if "?P c post0" for post0
  proof -
    from that have "c \<in> set (c # cs) \<and> ?P c post0" by simp
    then show ?thesis by blast
  qed
  from Cons.prems(1) show ?case
  proof (cases rule: enviar_loop_step)
    case (failed err w1 ev2)
    note nx = enviar_loop_next [OF failed(3)]
    show ?thesis
    proof (cases pre)
      case Nil
      with failed(4) Cons.prems(2) nx have "?P c ev2" by auto
      then show ?thesis by (rule here)
    next
      case (Cons x pre2)
      with failed(4) Cons.prems(2) obtain pre3 where "ev2 = pre3 @ ?X # post"
        by (auto simp add: Cons_eq_append_conv append_eq_Cons_conv)
      from lift [OF failed(3) this] show ?thesis .
    qed
  next
    case (no_address w1 ev2)
    note nx = enviar_loop_next [OF no_address(4)]
    show ?thesis
    proof (cases pre)
      case Nil
      with no_address(3,5) Cons.prems(2) nx have "?P c ev2" by auto
      then show ?thesis by (rule here)
    next
      case (Cons x pre2)
      with no_address(5) Cons.prems(2) obtain pre3 where "ev2 = pre3 @ ?X # post"
        by (auto simp add: Cons_eq_append_conv append_eq_Cons_conv)
      from lift [OF no_address(4) this] show ?thesis .
    qed
  next
    case (unrecorded e err w2 ev2)
    show ?thesis
    proof (cases pre)
      case Nil
      with unrecorded(3,5) Cons.prems(2) have "?P c (Console (SendFailed e err) # ev2)" by auto
      then show ?thesis by (rule here)
    next
      case (Cons x pre2)
      with unrecorded(5) Cons.prems(2) obtain pre3 where "ev2 = pre3 @ ?X # post"
        by (auto simp add: Cons_eq_append_conv append_eq_Cons_conv)
      from lift [OF unrecorded(4) this] show ?thesis .
    qed
  next
    case (sent e w2 ev2)
    show ?thesis
    proof (cases pre)
      case Nil
      with sent(3,5) Cons.prems(2) have "?P c (Delay 1000 # ev2)" by auto
      then show ?thesis by (rule here)
    next
      case (Cons x pre2)
      with sent(5) Cons.prems(2) obtain pre3 where "ev2 = pre3 @ ?X # post"
        by (auto simp add: Cons_eq_append_conv append_eq_Cons_conv)
      from lift [OF sent(4) this] show ?thesis .
    qed
  qed
qed

section \<open>The roster stream\<close>

lemma foldl_Data:
  "foldl (on_event S) (rs, st, evs) (map Data rows) = (rs @ map toParticipant rows, st, evs)"
  by (induction rows arbitrary: rs) simp_all

lemma settled_stays:
  "st \<noteq> Pending \<Longrightarrow> fst (snd (foldl (on_event S) (rs, st, evs) body)) = st"
proof (induction body arbitrary: rs evs)
  case Nil
  show ?case by simp
next
  case (Cons ev body)
  then show ?case by (cases ev) (simp_all add: Let_def)
qed

lemma console_only_fold:
  "\<forall>ev \<in> set evs. \<exists>m. ev = Console m \<Longrightarrow>
     \<forall>ev \<in> set (snd (snd (foldl (on_event S) (rs, st, evs) body))). \<exists>m. ev = Console m"
proof (induction body arbitrary: rs st evs)
  case Nil
  then show ?case by simp
next
  case (Cons ev body)
  show ?case
  proof (cases ev)
    case (Data r)
    with Cons.IH [OF Cons.prems] show ?thesis by simp
  next
    case End
    have "\<forall>ev \<in> set (evs @ [Console (CsvLoaded (length rs)),
        Console (ReadyToReceive (length (filter (is_new S) rs)))]). \<exists>m. ev = Console m"
      using Cons.prems by auto
    from Cons.IH [OF this] End show ?thesis by (simp add: Let_def)
  next
    case (Error err)
    have "\<forall>ev \<in> set (evs @ [Console (CsvError err)]). \<exists>m. ev = Console m"
      using Cons.prems by auto
    from Cons.IH [OF this] Error show ?thesis by simp
  qed
qed

lemma csv_shape:
  "(\<exists>rows. body = map Data rows)
   \<or> (\<exists>rows rest. body = map Data rows @ End # rest)
   \<or> (\<exists>rows err rest. body = map Data rows @ Error err # rest)"
proof (induction body)
  case Nil
  then show ?case by simp
next
  case (Cons ev body)
  show ?case
  proof (cases ev)
    case (Data r)
    from Cons.IH show ?thesis
    proof (elim disjE exE)
      fix rows assume "body = map Data rows"
      then have "ev # body = map Data (r # rows)" by (simp add: Data)
      then show ?thesis by (intro disjI1 exI)
    next
      fix rows rest assume "body = map Data rows @ End # rest"
      then have "ev # body = map Data (r # rows) @ End # rest" by (simp add: Data)
      then show ?thesis by (intro disjI2 disjI1 exI)
    next
      fix rows err rest assume "body = map Data rows @ Error err # rest"
      then have "ev # body = map Data (r # rows) @ Error err # rest" by (simp add: Data)
      then show ?thesis by (intro disjI2 exI)
    qed
  next
    case End
    then have "ev # body = map Data [] @ End # body" by simp
    then show ?thesis by (intro disjI2 disjI1 exI)
  next
    case (Error err)
    then have "ev # body = map Data [] @ Error err # body" by simp
    then show ?thesis by (intro disjI2 exI)
  qed
qed

lemma lerCSV_Http:
  "fst (lerCSV S (Http True body)) = fst (snd (foldl (on_event S) ([], Pending, []) body))"
  by (simp add: lerCSV_def split: prod.splits)

lemma lerCSV_pending:
  "fst (lerCSV S (Http True (map Data rows))) = Pending"
  by (simp add: lerCSV_Http foldl_Data)

lemma lerCSV_resolved:
  "fst (lerCSV S (Http True (map Data rows @ End # rest)))
     = Resolved (filter (is_new S) (map toParticipant rows))"
proof -
  have "foldl (on_event S) ([], Pending, []) (map Data rows @ End # rest)
      = foldl (on_event S) (map toParticipant rows, Resolved (filter (is_new S) (map toParticipant rows)),
          [Console (CsvLoaded (length (map toParticipant rows))),
           Console (ReadyToReceive (length (filter (is_new S) (map toParticipant rows))))]) rest"
    by (simp only: foldl_append foldl_Data foldl_Cons on_event.simps Let_def append_Nil if_True simp_thms)
  then show ?thesis
    by (simp only: lerCSV_Http settled_stays promise.distinct not_False_eq_True)
qed

lemma lerCSV_rejected:
  "fst (lerCSV S (Http True (map Data rows @ Error err # rest))) = Rejected err"
proof -
  have "foldl (on_event S) ([], Pending, []) (map Data rows @ Error err # rest)
      = foldl (on_event S) (map toParticipant rows, Rejected err, [Console (CsvError err)]) rest"
    by (simp only: foldl_append foldl_Data foldl_Cons on_event.simps append_Nil if_True simp_thms)
  then show ?thesis
    by (simp only: lerCSV_Http settled_stays promise.distinct not_False_eq_True)
qed

lemma lerCSV_console:
  "ev \<in> set (snd (lerCSV S resp)) \<Longrightarrow> \<exists>m. ev = Console m"
proof (cases resp)
  case (NetworkError err)
  assume "ev \<in> set (snd (lerCSV S resp))"
  with NetworkError show ?thesis by (simp add: lerCSV_def)
next
  case (Http ok body)
  assume a: "ev \<in> set (snd (lerCSV S resp))"
  show ?thesis
  proof (cases ok)
    case False
    with a Http show ?thesis by (simp add: lerCSV_def)
  next
    case True
    have "\<forall>ev \<in> set (snd (snd (foldl (on_event S) ([], Pending, []) body))). \<exists>m. ev = Console m"
      by (rule console_only_fold) simp
    with a Http True show ?thesis
      by (auto simp add: lerCSV_def split: prod.splits)
  qed
qed

lemma lerCSV_Resolved_iff:
  "fst (lerCSV S resp) = Resolved ps \<longleftrightarrow>
     (\<exists>rows rest. resp = Http True (map Data rows @ End # rest)
        \<and> ps = filter (is_new S) (map toParticipant rows))"
proof
  assume r: "fst (lerCSV S resp) = Resolved ps"
  then obtain body where resp: "resp = Http True body"
    by (cases resp) (auto simp add: lerCSV_def split: if_splits)
  from csv_shape [of body] show "\<exists>rows rest. resp = Http True (map Data rows @ End # rest)
        \<and> ps = filter (is_new S) (map toParticipant rows)"
    using r resp by (auto simp add: lerCSV_pending lerCSV_resolved lerCSV_rejected)
next
  assume "\<exists>rows rest. resp = Http True (map Data rows @ End # rest)
        \<and> ps = filter (is_new S) (map toParticipant rows)"
  then show "fst (lerCSV S resp) = Resolved ps"
    by (auto simp add: lerCSV_resolved)
qed

section \<open>The shape of a run\<close>

lemma perform_quiet:
  "perform env c w = (r, w', evs) \<Longrightarrow> (\<And>m. c \<noteq> SendMail m) \<Longrightarrow> (\<And>l. c \<noteq> AppendFile l)
     \<Longrightarrow> \<forall>ev \<in> set evs. \<not> dispatch_event ev"
  by (cases c) (auto dest!: perform_frame)

lemma gerarPDF_quiet:
  assumes "gerarPDF env t p w = (r, w', evs)"
  shows "\<forall>ev \<in> set evs. \<not> dispatch_event ev"
proof -
  have q: "perform env c w0 = (r0, w1, ev1) \<Longrightarrow> (\<And>m. c \<noteq> SendMail m)
      \<Longrightarrow> (\<And>l. c \<noteq> AppendFile l) \<Longrightarrow> ev \<in> set ev1 \<Longrightarrow> \<not> dispatch_event ev"
    for c w0 r0 w1 ev1 ev
    using perform_quiet by blast
  from assms show ?thesis
    by (auto simp add: gerarPDF_def Let_def split: prod.splits option.splits dest: q)
qed

lemma gerar_loop_quiet:
  "gerar_loop env ps acc w = (cs, w', evs) \<Longrightarrow> \<forall>ev \<in> set evs. \<not> dispatch_event ev"
proof (induction ps arbitrary: acc w cs w' evs)
  case Nil
  then show ?case by simp
next
  case (Cons p ps)
  obtain r w1 ev1 where g: "gerarPDF env ''certificate.html'' p w = (r, w1, ev1)"
    by (metis prod_cases3)
  note q1 = gerarPDF_quiet [OF g]
  show ?case
  proof (cases r)
    case (Inl err)
    with Cons.prems g obtain ev2 where
      "gerar_loop env ps acc w1 = (cs, w', ev2)"
      "evs = ev1 @ Console (RenderFailed (js_String (name p)) err) # ev2"
      by (auto split: prod.splits)
    with Cons.IH [OF this(1)] q1 show ?thesis by auto
  next
    case (Inr pdfPath)
    with Cons.prems g obtain ev2 where
      "gerar_loop env ps (acc @ [\<lparr>participant = p, certificate = pdfPath\<rparr>]) w1 = (cs, w', ev2)"
      "evs = ev1 @ ev2"
      by (auto split: prod.splits)
    with Cons.IH [OF this(1)] q1 show ?thesis by auto
  qed
qed

lemma gerarCertificados_quiet:
  "gerarCertificados env ps w = (cs, w', evs) \<Longrightarrow> \<forall>ev \<in> set evs. \<not> dispatch_event ev"
  using gerar_loop_quiet [of env ps "[]" w]
  by (auto simp add: gerarCertificados_def split: if_splits prod.splits)

lemma lerCSV_quiet: "ev \<in> set (snd (lerCSV S resp)) \<Longrightarrow> \<not> dispatch_event ev"
  using lerCSV_console [of ev S resp] by auto

text \<open>The events of a run: the loop of the sending between two stretches without any
  sending, appending or waiting.\<close>

lemma main_shape:
  assumes "main env resp w = (w', evs)"
  obtains A B cs w1 loop_evs where
    "evs = A @ loop_evs @ B"
    "\<forall>ev \<in> set A. \<not> dispatch_event ev"
    "\<forall>ev \<in> set B. \<not> dispatch_event ev"
    "enviar_loop env cs w1 = (w', loop_evs)"
    "ledger w1 = ledger w"
    "\<forall>c \<in> set cs. is_new (loadSentEmails (ledger w)) (participant c)"
    "\<forall>c \<in> set cs. \<exists>ps. fst (lerCSV (loadSentEmails (ledger w)) resp) = Resolved ps
        \<and> participant c \<in> set ps"
proof -
  define S where "S = loadSentEmails (ledger w)"
  obtain pr ev1 where l: "lerCSV S resp = (pr, ev1)" by fastforce
  have q1: "\<forall>ev \<in> set ev1. \<not> dispatch_event ev"
    using lerCSV_quiet [of _ S resp] by (simp add: l)
  show thesis
  proof (cases pr)
    case Pending
    with assms l have "w' = w" "evs = (Console (LedgerCount (card S)) # ev1) @ [] @ []"
      by (auto simp add: main_def S_def Let_def)
    then show thesis
      using q1 by (intro that [where A = "Console (LedgerCount (card S)) # ev1" and B = "[]" and cs = "[]" and ?w1.0 = w and loop_evs = "[]"]) simp_all
  next
    case (Rejected err)
    with assms l have "w' = w"
      "evs = (Console (LedgerCount (card S)) # ev1) @ [] @ [Console (Unexpected err), Console Finished]"
      by (auto simp add: main_def S_def Let_def)
    then show thesis
      using q1 by (intro that [where A = "Console (LedgerCount (card S)) # ev1" and B = "[Console (Unexpected err), Console Finished]" and cs = "[]" and ?w1.0 = w and loop_evs = "[]"]) simp_all
  next
    case (Resolved ps)
    then have "fst (lerCSV S resp) = Resolved ps" by (simp add: l)
    then have new: "\<forall>p \<in> set ps. is_new S p"
      by (auto simp add: lerCSV_Resolved_iff)
    obtain certs w1 ev2 where g: "gerarCertificados env ps w = (certs, w1, ev2)"
      by (metis prod_cases3)
    note fr = gerarCertificados_frame [OF g] and q2 = gerarCertificados_quiet [OF g]
    obtain w2 ev3 where e: "enviarCertificadosPorEmail env certs w1 = (w2, ev3)"
      by fastforce
    from assms l Resolved g e have m: "w' = w2"
      "evs = Console (LedgerCount (card S)) # ev1 @ ev2 @ ev3 @ [Console Finished]"
      by (auto simp add: main_def S_def Let_def)
    have cn: "\<forall>c \<in> set certs. is_new (loadSentEmails (ledger w)) (participant c)"
      using fr new by (auto simp add: S_def)
    have pn: "\<forall>c \<in> set certs. \<exists>ps. fst (lerCSV (loadSentEmails (ledger w)) resp) = Resolved ps
        \<and> participant c \<in> set ps"
      using fr l Resolved by (auto simp add: S_def)
    show thesis
    proof (cases "certs = []")
      case True
      with e have "w2 = w1" "ev3 = [Console NothingToSend]"
        by (simp_all add: enviarCertificadosPorEmail_def)
      with m have "evs = (Console (LedgerCount (card S)) # ev1 @ ev2) @ []
          @ [Console NothingToSend, Console Finished]" "w' = w1"
        by simp_all
      then show thesis
        using q1 q2 fr by (intro that [where A = "Console (LedgerCount (card S)) # ev1 @ ev2" and B = "[Console NothingToSend, Console Finished]" and cs = "[]" and ?w1.0 = w1 and loop_evs = "[]"]) auto
    next
      case False
      obtain w3 lev where lp: "enviar_loop env certs w1 = (w3, lev)" by fastforce
      with e False have "w2 = w3" "ev3 = Console StartSending # lev @ [Console AllProcessed]"
        by (simp_all add: enviarCertificadosPorEmail_def)
      with m have "evs = (Console (LedgerCount (card S)) # ev1 @ ev2 @ [Console StartSending]) @ lev
          @ [Console AllProcessed, Console Finished]" "w' = w3"
        by simp_all
      then show thesis
        using q1 q2 fr lp cn pn by (intro that [where A = "Console (LedgerCount (card S)) # ev1 @ ev2 @ [Console StartSending]" and B = "[Console AllProcessed, Console Finished]" and cs = certs and ?w1.0 = w1 and loop_evs = lev]) auto
    qed
  qed
qed

lemma appended_append: "appended (xs @ ys) = appended xs @ appended ys"
  by (induction xs rule: appended.induct) simp_all

lemma append_calls_append: "append_calls (xs @ ys) = append_calls xs @ append_calls ys"
  by (induction xs rule: append_calls.induct) simp_all

lemma successes_append: "successes (xs @ ys) = successes xs @ successes ys"
  by (induction xs rule: successes.induct) simp_all

lemma quiet_appended: "\<forall>ev \<in> set xs. \<not> dispatch_event ev \<Longrightarrow> appended xs = []"
  by (induction xs rule: appended.induct) simp_all

lemma quiet_append_calls: "\<forall>ev \<in> set xs. \<not> dispatch_event ev \<Longrightarrow> append_calls xs = []"
  by (induction xs rule: append_calls.induct) simp_all

lemma quiet_successes: "\<forall>ev \<in> set xs. \<not> dispatch_event ev \<Longrightarrow> successes xs = []"
  by (induction xs rule: successes.induct) simp_all

lemma quiet_attempts: "\<forall>ev \<in> set xs. \<not> dispatch_event ev \<Longrightarrow> send_attempts xs = []"
  by (induction xs rule: send_attempts.induct) simp_all

lemma enviar_loop_file:
  "enviar_loop env cs w = (w', evs) \<Longrightarrow>
     ledger w' = (if appended evs = [] then ledger w
                  else Some (contents (ledger w) @ concat (appended evs)))"
proof (induction cs arbitrary: w evs)
  case Nil
  then show ?case by simp
next
  case (Cons c cs)
  from Cons.prems show ?case
  proof (cases rule: enviar_loop_step)
    case (failed err w1 ev2)
    with Cons.IH [OF failed(3)] show ?thesis by simp
  next
    case (no_address w1 ev2)
    with Cons.IH [OF no_address(4)] show ?thesis by simp
  next
    case (unrecorded e err w2 ev2)
    with Cons.IH [OF unrecorded(4)] show ?thesis by simp
  next
    case (sent e w2 ev2)
    with Cons.IH [OF sent(4)] show ?thesis
      by (simp add: appendFileSync_def contents_def)
  qed
qed

lemma enviar_loop_commits:
  "enviar_loop env cs w = (w', evs) \<Longrightarrow> \<forall>c \<in> set cs. email (participant c) \<noteq> None \<Longrightarrow>
     append_calls evs = map (\<lambda>m. ledger_line (js_String (mail_to m))) (successes evs)"
proof (induction cs arbitrary: w evs)
  case Nil
  then show ?case by simp
next
  case (Cons c cs)
  from Cons.prems(1) show ?case
  proof (cases rule: enviar_loop_step)
    case (failed err w1 ev2)
    with Cons.IH [OF failed(3)] Cons.prems(2) show ?thesis by simp
  next
    case (no_address w1 ev2)
    with Cons.prems(2) show ?thesis by simp
  next
    case (unrecorded e err w2 ev2)
    with Cons.IH [OF unrecorded(4)] Cons.prems(2) show ?thesis
      by (simp add: mail_to_mailOptions)
  next
    case (sent e w2 ev2)
    with Cons.IH [OF sent(4)] Cons.prems(2) show ?thesis
      by (simp add: mail_to_mailOptions)
  qed
qed

lemma is_new_address: "is_new S p \<Longrightarrow> \<exists>e. email p = Some e \<and> e \<noteq> [] \<and> normalized e \<notin> S"
  by (auto simp add: is_new_def split: option.splits)

section \<open>Evaluating the example runs\<close>

lemmas run_simps =
  main_def lerCSV_def toParticipant_def is_new_def loadSentEmails_def addSentEmail_def
  appendFileSync_def
  gerarCertificados_def gerarPDF_def perform_def enviarCertificadosPorEmail_def mail_to_mailOptions
  path_resolve_def normalize_step_def js_replace_def pdf_name_def ledger_line_def
  js_trim_def js_toLowerCase_def toLowerChar_def isWhiteSpace_def LF_def
  col_code_def col_name_def col_registration_def col_email_def
  ex_world_def ex_row_def ex_roster_def env_ok_def env_refusing_def env_unprintable_def env_flaky_def
  env_readonly_def
  contents_def Let_def char_of_def bit_Suc_0_iff




section \<open>What a run leaves in the ledger\<close>

lemma is_new_antimono: "S \<subseteq> S' \<Longrightarrow> is_new S' p \<Longrightarrow> is_new S p"
  by (auto simp add: is_new_def split: option.splits)

lemma load_add_member:
  assumes "complete_lines f" and "normalized e \<noteq> []" and "LF \<notin> set (normalized e)"
  shows "normalized e \<in> loadSentEmails (appendFileSync f (ledger_line e))"
  using load_add [OF assms(1,3)] assms(2) by simp

lemma sent_recorded:
  assumes "enviar_loop env cs w = (w', evs)" and "complete_lines (ledger w)"
    and "Ext (AppendFile (ledger_line e)) None \<in> set evs"
    and "normalized e \<noteq> []" and "LF \<notin> set (normalized e)"
  shows "normalized e \<in> loadSentEmails (ledger w')"
  using assms(1,2,3)
proof (induction cs arbitrary: w evs)
  case Nil
  then show ?case by simp
next
  case (Cons c cs)
  let ?X = "Ext (AppendFile (ledger_line e)) None"
  from Cons.prems(1) show ?case
  proof (cases rule: enviar_loop_step)
    case (failed err w1 ev2)
    with Cons.prems(3) have "?X \<in> set ev2" by simp
    from Cons.IH [OF failed(3) _ this] failed(1) Cons.prems(2) show ?thesis by simp
  next
    case (no_address w1 ev2)
    with Cons.prems(3) have "?X \<in> set ev2" by simp
    from Cons.IH [OF no_address(4) _ this] no_address(1) Cons.prems(2) show ?thesis by simp
  next
    case (unrecorded e0 err w2 ev2)
    with Cons.prems(3) have "?X \<in> set ev2" by simp
    from Cons.IH [OF unrecorded(4) _ this] unrecorded(1) Cons.prems(2) show ?thesis by simp
  next
    case (sent e0 w2 ev2)
    have c2: "complete_lines (ledger w2)" by (simp add: sent(1) complete_add)
    from sent(5) Cons.prems(3) consider
      (head) "ledger_line e0 = ledger_line e" | (later) "?X \<in> set ev2"
      by auto
    then show ?thesis
    proof cases
      case head
      then have "ledger w2 = appendFileSync (ledger w) (ledger_line e)" by (simp add: sent(1))
      then have "normalized e \<in> loadSentEmails (ledger w2)"
        using load_add_member [of "ledger w" e] Cons.prems(2) assms(4,5) by simp
      with enviar_loop_ledger [OF sent(4) c2] show ?thesis by blast
    next
      case later
      from Cons.IH [OF sent(4) c2 later] show ?thesis .
    qed
  qed
qed

lemma main_attempts:
  assumes "main env resp w = (w', evs)" and "m \<in> set (send_attempts evs)"
  shows "\<exists>ps p e. fst (lerCSV (loadSentEmails (ledger w)) resp) = Resolved ps \<and> p \<in> set ps
     \<and> is_new (loadSentEmails (ledger w)) p \<and> mail_to m = Some e \<and> email p = Some e"
proof -
  from assms(1) obtain A B cs w1 lev where
    evs: "evs = A @ lev @ B"
    and qa: "\<forall>ev \<in> set A. \<not> dispatch_event ev"
    and qb: "\<forall>ev \<in> set B. \<not> dispatch_event ev"
    and lp: "enviar_loop env cs w1 = (w', lev)"
    and new: "\<forall>c \<in> set cs. is_new (loadSentEmails (ledger w)) (participant c)"
    and src: "\<forall>c \<in> set cs. \<exists>ps. fst (lerCSV (loadSentEmails (ledger w)) resp) = Resolved ps
        \<and> participant c \<in> set ps"
    by (rule main_shape)
  have "send_attempts evs = map (mailOptions env) cs"
    using enviar_loop_attempts [OF lp] qa qb
    by (simp add: evs send_attempts_append quiet_attempts)
  with assms(2) obtain c where c: "c \<in> set cs" "m = mailOptions env c" by auto
  from c(1) new have n: "is_new (loadSentEmails (ledger w)) (participant c)" by blast
  then obtain e where "email (participant c) = Some e" using is_new_address by blast
  moreover from c(1) src obtain ps where
    "fst (lerCSV (loadSentEmails (ledger w)) resp) = Resolved ps" "participant c \<in> set ps"
    by blast
  ultimately show ?thesis
    using c(2) n by (auto simp add: mail_to_mailOptions)
qed

lemma main_recorded:
  assumes "main env resp w = (w', evs)" and "complete_lines (ledger w)"
  shows "loadSentEmails (ledger w) \<subseteq> loadSentEmails (ledger w')"
    and "Ext (AppendFile (ledger_line e)) None \<in> set evs \<Longrightarrow> normalized e \<noteq> []
      \<Longrightarrow> LF \<notin> set (normalized e) \<Longrightarrow> normalized e \<in> loadSentEmails (ledger w')"
proof -
  from assms(1) obtain A B cs w1 lev where
    evs: "evs = A @ lev @ B"
    and qa: "\<forall>ev \<in> set A. \<not> dispatch_event ev"
    and qb: "\<forall>ev \<in> set B. \<not> dispatch_event ev"
    and lp: "enviar_loop env cs w1 = (w', lev)"
    and l1: "ledger w1 = ledger w"
    by (rule main_shape)
  have c1: "complete_lines (ledger w1)" using assms(2) by (simp add: l1)
  from enviar_loop_ledger [OF lp c1] show "loadSentEmails (ledger w) \<subseteq> loadSentEmails (ledger w')"
    by (simp add: l1)
  assume a: "Ext (AppendFile (ledger_line e)) None \<in> set evs" "normalized e \<noteq> []"
    "LF \<notin> set (normalized e)"
  from a(1) qa qb have "Ext (AppendFile (ledger_line e)) None \<in> set lev"
    by (auto simp add: evs)
  from sent_recorded [OF lp c1 this a(2,3)] show "normalized e \<in> loadSentEmails (ledger w')" .
qed

section \<open>Runs that send nothing\<close>

lemma is_new_truthy:
  "is_new S p \<longleftrightarrow> truthy (email p) \<and> normalized (js_String (email p)) \<notin> S"
  by (cases "email p") (simp_all add: is_new_def)



lemma main_finishes:
  assumes "fst (lerCSV (loadSentEmails (ledger w)) resp) = Resolved ps"
  shows "last (snd (main env resp w)) = Console Finished"
proof -
  obtain ev1 where l: "lerCSV (loadSentEmails (ledger w)) resp = (Resolved ps, ev1)"
    using assms by (cases "lerCSV (loadSentEmails (ledger w)) resp") auto
  then show ?thesis
    by (simp add: main_def Let_def split: prod.splits)
qed

section \<open>Every item is attempted\<close>

lemma render_attempts_append:
  "render_attempts (xs @ ys) = render_attempts xs @ render_attempts ys"
  by (induction xs rule: render_attempts.induct) simp_all

lemma gerarPDF_attempt:
  "gerarPDF env t p w = (r, w', evs) \<Longrightarrow> render_attempts evs = [js_String (name p)]"
  by (auto simp add: gerarPDF_def Let_def render_attempts_append
      split: prod.splits option.splits dest!: perform_frame)

lemma gerar_loop_attempts:
  "gerar_loop env ps acc w = (cs, w', evs) \<Longrightarrow>
     render_attempts evs = map (\<lambda>p. js_String (name p)) ps"
proof (induction ps arbitrary: acc w cs w' evs)
  case Nil
  then show ?case by simp
next
  case (Cons p ps)
  obtain r w1 ev1 where g: "gerarPDF env ''certificate.html'' p w = (r, w1, ev1)"
    by (metis prod_cases3)
  note a = gerarPDF_attempt [OF g]
  show ?case
  proof (cases r)
    case (Inl err)
    with Cons.prems g obtain ev2 where
      "gerar_loop env ps acc w1 = (cs, w', ev2)"
      "evs = ev1 @ Console (RenderFailed (js_String (name p)) err) # ev2"
      by (auto split: prod.splits)
    with Cons.IH [OF this(1)] a show ?thesis by (simp add: render_attempts_append)
  next
    case (Inr pdfPath)
    with Cons.prems g obtain ev2 where
      "gerar_loop env ps (acc @ [\<lparr>participant = p, certificate = pdfPath\<rparr>]) w1 = (cs, w', ev2)"
      "evs = ev1 @ ev2"
      by (auto split: prod.splits)
    with Cons.IH [OF this(1)] a show ?thesis by (simp add: render_attempts_append)
  qed
qed

lemma gerarCertificados_attempts:
  "render_attempts (snd (snd (gerarCertificados env ps w))) = map (\<lambda>p. js_String (name p)) ps"
proof (cases "ps = []")
  case True
  then show ?thesis by (simp add: gerarCertificados_def)
next
  case False
  obtain cs w1 evs where g: "gerar_loop env ps [] w = (cs, w1, evs)"
    by (metis prod_cases3)
  from gerar_loop_attempts [OF g] False g show ?thesis
    by (simp add: gerarCertificados_def render_attempts_append)
qed

lemma enviar_attempts:
  "send_attempts (snd (enviarCertificadosPorEmail env cs w)) = map (mailOptions env) cs"
proof (cases "cs = []")
  case True
  then show ?thesis by (simp add: enviarCertificadosPorEmail_def)
next
  case False
  obtain w1 evs where l: "enviar_loop env cs w = (w1, evs)" by fastforce
  from enviar_loop_attempts [OF l] False l show ?thesis
    by (simp add: enviarCertificadosPorEmail_def send_attempts_append)
qed

section \<open>From the roster to the transport\<close>



lemma fold_no_render:
  "render_attempts (snd (snd (foldl (on_event S) (rs, st, evs) body))) = render_attempts evs"
proof (induction body arbitrary: rs st evs)
  case Nil
  show ?case by simp
next
  case (Cons ev body)
  show ?case
    by (cases ev) (simp_all add: Cons.IH Let_def render_attempts_append)
qed

lemma lerCSV_no_render: "render_attempts (snd (lerCSV S resp)) = []"
proof (cases resp)
  case (NetworkError err)
  then show ?thesis by (simp add: lerCSV_def)
next
  case (Http ok body)
  show ?thesis
    using fold_no_render [of S "[]" Pending "[]" body]
    by (auto simp add: Http lerCSV_def split: prod.splits)
qed

lemma enviar_loop_no_render:
  "enviar_loop env cs w = (w', evs) \<Longrightarrow> render_attempts evs = []"
proof (induction cs arbitrary: w evs)
  case Nil
  then show ?case by simp
next
  case (Cons c cs)
  from Cons.prems show ?case
    by (cases rule: enviar_loop_step) (auto dest: Cons.IH)
qed

lemma enviar_no_render: "render_attempts (snd (enviarCertificadosPorEmail env cs w)) = []"
proof (cases "cs = []")
  case True
  then show ?thesis by (simp add: enviarCertificadosPorEmail_def)
next
  case False
  obtain w1 evs where l: "enviar_loop env cs w = (w1, evs)" by fastforce
  from enviar_loop_no_render [OF l] False l show ?thesis
    by (simp add: enviarCertificadosPorEmail_def render_attempts_append)
qed

lemma main_resolved:
  assumes "fst (lerCSV (loadSentEmails (ledger w)) resp) = Resolved ps"
  shows "render_attempts (snd (main env resp w)) = map (\<lambda>p. js_String (name p)) ps"
    and "send_attempts (snd (main env resp w))
      = map (mailOptions env) (fst (gerarCertificados env ps w))"
proof -
  obtain ev1 where l: "lerCSV (loadSentEmails (ledger w)) resp = (Resolved ps, ev1)"
    using assms by (cases "lerCSV (loadSentEmails (ledger w)) resp") auto
  obtain cs w1 ev2 where g: "gerarCertificados env ps w = (cs, w1, ev2)"
    by (metis prod_cases3)
  obtain w2 ev3 where e: "enviarCertificadosPorEmail env cs w1 = (w2, ev3)" by fastforce
  have m: "snd (main env resp w) = Console (LedgerCount (card (loadSentEmails (ledger w))))
      # ev1 @ ev2 @ ev3 @ [Console Finished]"
    by (simp add: main_def Let_def l g e)
  have r1: "render_attempts ev1 = []"
    using lerCSV_no_render [of "loadSentEmails (ledger w)" resp] by (simp add: l)
  have r2: "render_attempts ev2 = map (\<lambda>p. js_String (name p)) ps"
    using gerarCertificados_attempts [of env ps w] by (simp add: g)
  have r3: "render_attempts ev3 = []"
    using enviar_no_render [of env cs w1] by (simp add: e)
  show "render_attempts (snd (main env resp w)) = map (\<lambda>p. js_String (name p)) ps"
    by (simp add: m render_attempts_append r1 r2 r3)
  have s1: "send_attempts ev1 = []"
    using lerCSV_quiet [of _ "loadSentEmails (ledger w)" resp] by (simp add: l quiet_attempts)
  have s2: "send_attempts ev2 = []"
    using gerarCertificados_quiet [OF g] by (simp add: quiet_attempts)
  have s3: "send_attempts ev3 = map (mailOptions env) cs"
    using enviar_attempts [of env cs w1] by (simp add: e)
  show "send_attempts (snd (main env resp w))
      = map (mailOptions env) (fst (gerarCertificados env ps w))"
    by (simp add: m send_attempts_append s1 s2 s3 g)
qed

lemma main_unfold:
  assumes "fst (lerCSV (loadSentEmails (ledger w)) resp) = Resolved ps"
    and "gerarCertificados env ps w = (cs, w1, ev2)"
    and "enviarCertificadosPorEmail env cs w1 = (w2, ev3)"
  shows "main env resp w
    = (w2, Console (LedgerCount (card (loadSentEmails (ledger w))))
         # snd (lerCSV (loadSentEmails (ledger w)) resp) @ ev2 @ ev3 @ [Console Finished])"
proof -
  obtain ev1 where l: "lerCSV (loadSentEmails (ledger w)) resp = (Resolved ps, ev1)"
    using assms(1) by (cases "lerCSV (loadSentEmails (ledger w)) resp") auto
  then show ?thesis
    by (simp add: main_def Let_def assms(2,3))
qed

section \<open>Rendering a participant of the batch\<close>










section \<open>The replacement text\<close>

lemma getSubstitution_plain:
  "CHR 0x24 \<notin> set n \<Longrightarrow> getSubstitution m pre post n = n"
  by (induction m pre post n rule: getSubstitution.induct) auto

lemma find_first_Some:
  "find_first pat s = Some (pre, post) \<Longrightarrow>
     s = pre @ pat @ post \<and> (\<forall>k < length pre. take (length pat) (drop k s) \<noteq> pat)"
proof (induction s arbitrary: pre)
  case Nil
  then show ?case by (auto split: if_splits)
next
  case (Cons c cs)
  show ?case
  proof (cases "take (length pat) (c # cs) = pat")
    case True
    with Cons.prems have "pre = []" "post = drop (length pat) (c # cs)" by simp_all
    with True show ?thesis by (metis append_Nil append_take_drop_id length_0_conv not_less_zero list.size(3))
  next
    case False
    with Cons.prems obtain pre' where f: "find_first pat cs = Some (pre', post)" and p: "pre = c # pre'"
      by (auto split: option.splits)
    from Cons.IH [OF f] have ih1: "cs = pre' @ pat @ post" by (rule conjunct1)
    from Cons.IH [OF f] have ih2: "\<forall>k < length pre'. take (length pat) (drop k cs) \<noteq> pat"
      by (rule conjunct2)
    note ih = ih1 ih2
    have "take (length pat) (drop k (c # cs)) \<noteq> pat" if "k < length pre" for k
    proof (cases k)
      case 0
      with False show ?thesis by simp
    next
      case (Suc j)
      with that p ih(2) show ?thesis by simp
    qed
    with ih(1) p show ?thesis by simp
  qed
qed

section \<open>Properties\<close>

text \<open>
  C9. When the ledger file does not exist, \<open>loadSentEmails\<close> returns the empty set, and
  the run goes on with it. The run reports a ledger of no address; the filter retains
  every participant whose address is a non-empty string; and when the roster is read to
  its end the run is the rendering of all these participants, in the order of the roster,
  followed by the sending of the certificates rendered: \<open>gerarPDF\<close> is entered for each
  of them and the transport is called for each certificate.
\<close>

theorem loadSentEmails_absent:
  assumes "ledger w = None"
  shows "loadSentEmails (ledger w) = {}
    \<and> hd (snd (main env resp w)) = Console (LedgerCount 0)
    \<and> fst (lerCSV (loadSentEmails (ledger w)) (Http True (map Data rows @ End # rest)))
        = Resolved (filter (\<lambda>p. truthy (email p)) (map toParticipant rows))
    \<and> main env (Http True (map Data rows @ End # rest)) w
        = (case gerarCertificados env
                  (filter (\<lambda>p. truthy (email p)) (map toParticipant rows)) w of
             (cs, w1, ev2) \<Rightarrow>
               (case enviarCertificadosPorEmail env cs w1 of
                  (w2, ev3) \<Rightarrow>
                    (w2, Console (LedgerCount 0)
                           # snd (lerCSV {} (Http True (map Data rows @ End # rest)))
                           @ ev2 @ ev3 @ [Console Finished])))
    \<and> render_attempts (snd (main env (Http True (map Data rows @ End # rest)) w))
        = map (\<lambda>p. js_String (name p))
            (filter (\<lambda>p. truthy (email p)) (map toParticipant rows))
    \<and> send_attempts (snd (main env (Http True (map Data rows @ End # rest)) w))
        = map (mailOptions env)
            (fst (gerarCertificados env
                    (filter (\<lambda>p. truthy (email p)) (map toParticipant rows)) w))"
proof -
  let ?resp = "Http True (map Data rows @ End # rest)"
  let ?ps = "filter (\<lambda>p. truthy (email p)) (map toParticipant rows)"
  have e: "loadSentEmails (ledger w) = {}"
    using assms by (simp add: loadSentEmails_def)
  have "is_new {} = (\<lambda>p. truthy (email p))"
    by (rule ext) (simp add: is_new_truthy)
  then have f: "fst (lerCSV (loadSentEmails (ledger w)) ?resp) = Resolved ?ps"
    by (simp add: e lerCSV_resolved)
  have h: "hd (snd (main env resp w)) = Console (LedgerCount 0)"
    by (simp add: main_def Let_def e split: prod.splits promise.splits)
  obtain cs w1 ev2 where g: "gerarCertificados env ?ps w = (cs, w1, ev2)"
    by (metis prod_cases3)
  obtain w2 ev3 where s: "enviarCertificadosPorEmail env cs w1 = (w2, ev3)"
    by fastforce
  have m: "main env ?resp w
        = (case gerarCertificados env ?ps w of
             (cs, w1, ev2) \<Rightarrow>
               (case enviarCertificadosPorEmail env cs w1 of
                  (w2, ev3) \<Rightarrow>
                    (w2, Console (LedgerCount 0) # snd (lerCSV {} ?resp)
                           @ ev2 @ ev3 @ [Console Finished])))"
    using main_unfold [OF f g s] by (simp add: g s e)
  note r = main_resolved [OF f, of env]
  from e h f m r show ?thesis by blast
qed

text \<open>Ana and Bob with no ledger file.\<close>

theorem loadSentEmails_absent_witness:
  "ledger (ex_world () None) = None
   \<and> hd (snd run_ok) = Console (LedgerCount 0)
   \<and> render_attempts (snd run_ok) = [''Ana'', ''Bob'']
   \<and> map mail_to (send_attempts (snd run_ok)) = [Some '' Ana@X.com '', Some ''bob@x.com'']"
proof -
  let ?rows = "[ex_row ''Ana'' '' Ana@X.com '', ex_row ''Bob'' ''bob@x.com'']"
  have h: "ledger (ex_world () None) = None"
    by (simp add: ex_world_def)
  have run: "main env_ok (Http True (map Data ?rows @ End # [])) (ex_world () None) = run_ok"
    by (simp add: run_ok_def ana_and_bob_def ex_roster_def)
  note inv = loadSentEmails_absent [OF h, where env = env_ok and rows = ?rows and rest = "[]"]
  from inv [where resp = ana_and_bob] have a: "hd (snd run_ok) = Console (LedgerCount 0)"
    by (simp add: run_ok_def)
  from inv have "render_attempts (snd run_ok)
      = map (\<lambda>p. js_String (name p)) (filter (\<lambda>p. truthy (email p)) (map toParticipant ?rows))"
    unfolding run by blast
  then have b: "render_attempts (snd run_ok) = [''Ana'', ''Bob'']"
    by (simp add: toParticipant_def ex_row_def col_code_def col_name_def
        col_registration_def col_email_def)
  have c: "map mail_to (send_attempts (snd run_ok)) = [Some '' Ana@X.com '', Some ''bob@x.com'']"
    by (simp add: run_ok_def ana_and_bob_def run_simps)
  from h a b c show ?thesis by blast
qed

text \<open>
  C3, as stated, fails. The transport accepts the two messages and the ledger file cannot
  be written: after each dispatch success \<open>fs.appendFileSync\<close> is called and throws, and
  no address is recorded.
\<close>

theorem accepted_send_not_recorded:
  "map mail_to (successes (snd run_readonly)) = [Some '' Ana@X.com '', Some ''bob@x.com'']
   \<and> append_calls (snd run_readonly) = [''ana@x.com\<newline>'', ''bob@x.com\<newline>'']
   \<and> appended (snd run_readonly) = []
   \<and> ledger (fst run_readonly) = None"
  by (simp add: run_readonly_def ana_and_bob_def run_simps)

text \<open>
  C3, amended. In a run, \<open>fs.appendFileSync\<close> is called once for each message the
  transport accepted, in order, with the normalized address of that message and a line
  feed. A call is made only right after the transport has returned from the send to that
  address and the console line that reports it, and each send that returned is followed by
  that console line and the call. The file ends as the file before followed by the texts
  of the calls that returned, in order: when the call throws nothing is recorded for that
  send. A send that threw is followed by the error report and by no call of
  \<open>fs.appendFileSync\<close>.
\<close>

theorem ledger_commit_invariant:
  assumes "main env resp w = (w', evs)"
  shows "append_calls evs = map (\<lambda>m. ledger_line (js_String (mail_to m))) (successes evs)
    \<and> ledger w' = (if appended evs = [] then ledger w
                   else Some (contents (ledger w) @ concat (appended evs)))
    \<and> (\<forall>pre l r post. evs = pre @ Ext (AppendFile l) r # post \<longrightarrow>
          (\<exists>m e pre'. mail_to m = Some e \<and> l = ledger_line e
             \<and> pre = pre' @ [Ext (SendMail m) None, Console (Sent e)]))
    \<and> (\<forall>pre m post. evs = pre @ Ext (SendMail m) None # post \<longrightarrow>
          (\<exists>e r post'. mail_to m = Some e
             \<and> post = Console (Sent e) # Ext (AppendFile (ledger_line e)) r # post'))
    \<and> (\<forall>pre m err post. evs = pre @ Ext (SendMail m) (Some err) # post \<longrightarrow>
          (\<exists>post'. post = Console (SendFailed (js_String (mail_to m)) err) # post'
             \<and> (\<forall>l r rest. post' \<noteq> Ext (AppendFile l) r # rest)))"
proof -
  from assms obtain A B cs w1 lev where
    evs: "evs = A @ lev @ B"
    and qa: "\<forall>ev \<in> set A. \<not> dispatch_event ev"
    and qb: "\<forall>ev \<in> set B. \<not> dispatch_event ev"
    and lp: "enviar_loop env cs w1 = (w', lev)"
    and l1: "ledger w1 = ledger w"
    and new: "\<forall>c \<in> set cs. is_new (loadSentEmails (ledger w)) (participant c)"
    by (rule main_shape)
  have addr: "\<forall>c \<in> set cs. email (participant c) \<noteq> None"
    using new is_new_address by fastforce
  have ap: "appended evs = appended lev" and ac: "append_calls evs = append_calls lev"
    and su: "successes evs = successes lev"
    using qa qb
    by (simp_all add: evs appended_append append_calls_append successes_append
        quiet_appended quiet_append_calls quiet_successes)
  have inside: "\<exists>pre1 post1. pre = A @ pre1 \<and> post = post1 @ B \<and> lev = pre1 @ X # post1"
    if "evs = pre @ X # post" and "dispatch_event X" for pre X post
  proof -
    from that qa qb have xa: "X \<notin> set A" and xb: "X \<notin> set B" by auto
    from that(1) have "A @ (lev @ B) = pre @ X # post" by (simp add: evs)
    from split_left [OF this xa] obtain pre1 where p1: "pre = A @ pre1" "lev @ B = pre1 @ X # post"
      by auto
    from split_right [OF p1(2) xb] obtain post1 where "post = post1 @ B" "lev = pre1 @ X # post1"
      by auto
    with p1(1) show ?thesis by blast
  qed
  have 1: "append_calls evs = map (\<lambda>m. ledger_line (js_String (mail_to m))) (successes evs)"
    using enviar_loop_commits [OF lp addr] by (simp add: ac su)
  have 2: "ledger w' = (if appended evs = [] then ledger w
                   else Some (contents (ledger w) @ concat (appended evs)))"
    using enviar_loop_file [OF lp] by (simp add: ap l1)
  have 3: "\<exists>m e pre'. mail_to m = Some e \<and> l = ledger_line e
             \<and> pre = pre' @ [Ext (SendMail m) None, Console (Sent e)]"
    if "evs = pre @ Ext (AppendFile l) r # post" for pre l r post
  proof -
    from inside [OF that] obtain pre1 post1 where
      i: "pre = A @ pre1" "lev = pre1 @ Ext (AppendFile l) r # post1" by auto
    from append_event [OF lp i(2)] obtain c e pre2 where
      "email (participant c) = Some e" "l = ledger_line e"
      "pre1 = pre2 @ [Ext (SendMail (mailOptions env c)) None, Console (Sent e)]"
      by blast
    then have "mail_to (mailOptions env c) = Some e \<and> l = ledger_line e
        \<and> pre = (A @ pre2) @ [Ext (SendMail (mailOptions env c)) None, Console (Sent e)]"
      by (simp add: i(1) mail_to_mailOptions)
    then show ?thesis by blast
  qed
  have 4: "\<exists>e r post'. mail_to m = Some e
             \<and> post = Console (Sent e) # Ext (AppendFile (ledger_line e)) r # post'"
    if "evs = pre @ Ext (SendMail m) None # post" for pre m post
  proof -
    from inside [OF that] obtain pre1 post1 where
      i: "post = post1 @ B" "lev = pre1 @ Ext (SendMail m) None # post1" by auto
    from send_event [OF lp i(2)] obtain c post2 where
      c: "c \<in> set cs" "m = mailOptions env c"
      "case email (participant c) of
         None \<Rightarrow> post1 = Console (Sent ''undefined'')
                   # Console (SendFailed ''undefined'' ''TypeError'') # post2
                 \<and> next_is_send post2
       | Some e \<Rightarrow> \<exists>r2. post1 = Console (Sent e) # Ext (AppendFile (ledger_line e)) r2 # post2"
      by auto
    from c(1) addr obtain e where e: "email (participant c) = Some e" by auto
    with c(3) obtain r2 where
      "post1 = Console (Sent e) # Ext (AppendFile (ledger_line e)) r2 # post2"
      by auto
    then have "mail_to m = Some e
        \<and> post = Console (Sent e) # Ext (AppendFile (ledger_line e)) r2 # (post2 @ B)"
      using c(2) e i(1) by (simp add: mail_to_mailOptions)
    then show ?thesis by blast
  qed
  have 5: "\<exists>post'. post = Console (SendFailed (js_String (mail_to m)) err) # post'
             \<and> (\<forall>l r rest. post' \<noteq> Ext (AppendFile l) r # rest)"
    if "evs = pre @ Ext (SendMail m) (Some err) # post" for pre m err post
  proof -
    from inside [OF that] obtain pre1 post1 where
      i: "post = post1 @ B" "lev = pre1 @ Ext (SendMail m) (Some err) # post1" by auto
    from send_event [OF lp i(2)] obtain c post2 where
      c: "m = mailOptions env c" "next_is_send post2"
      "post1 = Console (SendFailed (js_String (email (participant c))) err) # post2"
      by auto
    have "post2 @ B \<noteq> Ext (AppendFile l) r # rest" for l r rest
    proof (cases post2)
      case Nil
      with qb show ?thesis by auto
    next
      case (Cons x xs)
      with c(2) show ?thesis by (auto simp add: next_is_send_def split: event.splits call.splits)
    qed
    with c i(1) show ?thesis by (simp add: mail_to_mailOptions)
  qed
  from 1 2 3 4 5 show ?thesis by blast
qed

text \<open>Ana and Bob, where the transport refuses the message to Bob.\<close>

theorem ledger_commit_witness:
  "Ext (AppendFile ''ana@x.com\<newline>'') None \<in> set (snd run_refusing_bob)
   \<and> Ext (SendMail (mailOptions (env_refusing ''bob@x.com'') bob_certificado)) (Some ''rejected'')
       \<in> set (snd run_refusing_bob)
   \<and> append_calls (snd run_refusing_bob) = [''ana@x.com\<newline>'']
   \<and> appended (snd run_refusing_bob) = [''ana@x.com\<newline>'']
   \<and> map mail_to (successes (snd run_refusing_bob)) = [Some '' Ana@X.com '']
   \<and> ledger (fst run_refusing_bob) = Some ''ana@x.com\<newline>''"
proof -
  have "main (env_refusing ''bob@x.com'') ana_and_bob (ex_world () None)
      = (fst run_refusing_bob, snd run_refusing_bob)"
    by (simp add: run_refusing_bob_def)
  note inv = ledger_commit_invariant [OF this]
  have s: "map mail_to (successes (snd run_refusing_bob)) = [Some '' Ana@X.com '']"
    and m: "Ext (AppendFile ''ana@x.com\<newline>'') None \<in> set (snd run_refusing_bob)"
       "Ext (SendMail (mailOptions (env_refusing ''bob@x.com'') bob_certificado)) (Some ''rejected'')
          \<in> set (snd run_refusing_bob)"
    and a: "appended (snd run_refusing_bob) = [''ana@x.com\<newline>'']"
    by (simp_all add: run_refusing_bob_def ana_and_bob_def bob_certificado_def run_simps)
  from inv have "append_calls (snd run_refusing_bob)
      = map (\<lambda>m. ledger_line (js_String m)) (map mail_to (successes (snd run_refusing_bob)))"
    by (simp add: comp_def)
  then have c: "append_calls (snd run_refusing_bob) = [''ana@x.com\<newline>'']"
    unfolding s by (simp add: run_simps)
  from inv have "ledger (fst run_refusing_bob)
      = (if appended (snd run_refusing_bob) = [] then ledger (ex_world () None)
         else Some (contents (ledger (ex_world () None)) @ concat (appended (snd run_refusing_bob))))"
    by blast
  then have l: "ledger (fst run_refusing_bob) = Some ''ana@x.com\<newline>''"
    unfolding a by (simp add: ex_world_def contents_def)
  from m c a s l show ?thesis by blast
qed




text \<open>
  C1, as stated, fails: a second run against the same roster can send again. First, a
  send that failed in the first run is made again, and accepted, in the second. Then
  rosters and ledgers where every send of the first run was accepted and the second run
  sends all the same: an address of white space only (the line appended is blank, and
  blank lines are dropped when the ledger is loaded), an address with a line feed inside
  (it is read back as two lines), a ledger whose last line has no line feed (the first
  address appended joins that line), and a ledger file that cannot be written (the sends
  of the first run are not recorded).
\<close>

theorem second_run_sends_again:
  "map mail_to (successes (snd (rerun env_flaky ana_and_bob (ex_world 0 None))))
      = [Some '' Ana@X.com '']
   \<and> map mail_to (successes (snd (main env_ok blank_address (ex_world () None)))) = [Some ''  '']
   \<and> map mail_to (successes (snd (rerun env_ok blank_address (ex_world () None)))) = [Some ''  '']
   \<and> map mail_to (successes (snd (rerun env_ok two_line_address (ex_world () None))))
      = [Some (''lea@x.com'' @ [LF] @ ''lea@y.com'')]
   \<and> map mail_to (successes (snd (rerun env_ok ana_and_bob (ex_world () (Some ''zoe@x.com'')))))
      = [Some '' Ana@X.com '']
   \<and> map mail_to (successes (snd run_readonly)) = [Some '' Ana@X.com '', Some ''bob@x.com'']
   \<and> map mail_to (successes (snd (rerun env_readonly ana_and_bob (ex_world () None))))
      = [Some '' Ana@X.com '', Some ''bob@x.com'']"
  by (simp add: rerun_def run_readonly_def ana_and_bob_def blank_address_def
      two_line_address_def run_simps)

text \<open>
  C1, amended. Let the ledger file before the first run be absent, empty or ended by a
  line feed, and let two runs be made in succession against the same roster. Every address
  whose send was accepted in the first run and whose line the first run appended to the
  ledger (the append returned), and whose normalized form is not empty and has no line
  feed in it, is in the ledger the second run loads, and the second run makes no send to
  any address with that normalized form. If every participant that the first run retained
  was sent to with success and recorded in this way, at such an address, then the filter
  of the second run retains no participant and the second run calls the transport not
  once.
\<close>

theorem idempotent_rerun:
  assumes "complete_lines (ledger w)"
    and "main env resp w = (w1, evs1)"
    and "main env resp w1 = (w2, evs2)"
  shows "(\<forall>m e. Ext (SendMail m) None \<in> set evs1 \<and> mail_to m = Some e
            \<and> Ext (AppendFile (ledger_line e)) None \<in> set evs1
            \<and> normalized e \<noteq> [] \<and> LF \<notin> set (normalized e) \<longrightarrow>
          normalized e \<in> loadSentEmails (ledger w1)
          \<and> (\<forall>m' e'. m' \<in> set (send_attempts evs2) \<and> mail_to m' = Some e' \<longrightarrow>
                normalized e' \<noteq> normalized e))
    \<and> ((\<forall>ps p. fst (lerCSV (loadSentEmails (ledger w)) resp) = Resolved ps \<and> p \<in> set ps \<longrightarrow>
          (\<exists>m e. Ext (SendMail m) None \<in> set evs1 \<and> mail_to m = Some e \<and> email p = Some e
             \<and> Ext (AppendFile (ledger_line e)) None \<in> set evs1
             \<and> normalized e \<noteq> [] \<and> LF \<notin> set (normalized e))) \<longrightarrow>
        (\<forall>ps2. fst (lerCSV (loadSentEmails (ledger w1)) resp) = Resolved ps2 \<longrightarrow> ps2 = [])
        \<and> send_attempts evs2 = [])"
proof -
  let ?S0 = "loadSentEmails (ledger w)" and ?S1 = "loadSentEmails (ledger w1)"
  note mono = main_recorded(1) [OF assms(2,1)]
  note rec = main_recorded(2) [OF assms(2,1)]
  have 1: "normalized e \<in> ?S1
      \<and> (\<forall>m' e'. m' \<in> set (send_attempts evs2) \<and> mail_to m' = Some e' \<longrightarrow>
            normalized e' \<noteq> normalized e)"
    if "Ext (AppendFile (ledger_line e)) None \<in> set evs1"
      "normalized e \<noteq> []" "LF \<notin> set (normalized e)" for e
  proof -
    from rec [OF that] have r: "normalized e \<in> ?S1" .
    have "normalized e' \<noteq> normalized e"
      if "m' \<in> set (send_attempts evs2)" "mail_to m' = Some e'" for m' e'
    proof -
      from main_attempts [OF assms(3) that(1)] obtain p e2 where
        "is_new ?S1 p" "mail_to m' = Some e2" "email p = Some e2" by blast
      with that(2) have "normalized e' \<notin> ?S1" by (auto simp add: is_new_def)
      with r show ?thesis by auto
    qed
    with r show ?thesis by blast
  qed
  have 2: "(\<forall>ps2. fst (lerCSV ?S1 resp) = Resolved ps2 \<longrightarrow> ps2 = []) \<and> send_attempts evs2 = []"
    if H: "\<forall>ps p. fst (lerCSV ?S0 resp) = Resolved ps \<and> p \<in> set ps \<longrightarrow>
          (\<exists>m e. Ext (SendMail m) None \<in> set evs1 \<and> mail_to m = Some e \<and> email p = Some e
             \<and> Ext (AppendFile (ledger_line e)) None \<in> set evs1
             \<and> normalized e \<noteq> [] \<and> LF \<notin> set (normalized e))"
  proof -
    have none: "ps2 = []" if r2: "fst (lerCSV ?S1 resp) = Resolved ps2" for ps2
    proof (rule ccontr)
      assume "ps2 \<noteq> []"
      then obtain p where p: "p \<in> set ps2" by (cases ps2) auto
      from r2 obtain rows rest where
        resp: "resp = Http True (map Data rows @ End # rest)"
        and ps2: "ps2 = filter (is_new ?S1) (map toParticipant rows)"
        by (auto simp add: lerCSV_Resolved_iff)
      from p ps2 have n1: "is_new ?S1 p" and pr: "p \<in> set (map toParticipant rows)" by auto
      from is_new_antimono [OF mono n1] have n0: "is_new ?S0 p" .
      have "fst (lerCSV ?S0 resp) = Resolved (filter (is_new ?S0) (map toParticipant rows))"
        by (simp add: resp lerCSV_resolved)
      moreover have "p \<in> set (filter (is_new ?S0) (map toParticipant rows))"
        using n0 pr by simp
      ultimately obtain e where
        s: "email p = Some e" "Ext (AppendFile (ledger_line e)) None \<in> set evs1"
          "normalized e \<noteq> []" "LF \<notin> set (normalized e)"
        using H by blast
      from rec [OF s(2,3,4)] have "normalized e \<in> ?S1" .
      with n1 s(1) show False by (simp add: is_new_def)
    qed
    have "send_attempts evs2 = []"
    proof (rule ccontr)
      assume "send_attempts evs2 \<noteq> []"
      then obtain m' where "m' \<in> set (send_attempts evs2)" by (cases "send_attempts evs2") auto
      from main_attempts [OF assms(3) this] obtain ps p where
        "fst (lerCSV ?S1 resp) = Resolved ps" "p \<in> set ps" by blast
      with none show False by auto
    qed
    with none show ?thesis by blast
  qed
  from 1 2 show ?thesis by blast
qed

text \<open>Two runs for Ana and Bob where every call succeeds.\<close>

theorem idempotent_rerun_witness:
  "complete_lines (ledger (ex_world () None))
   \<and> Ext (SendMail (mailOptions env_ok ana_certificado)) None \<in> set (snd run_ok)
   \<and> Ext (SendMail (mailOptions env_ok bob_certificado)) None \<in> set (snd run_ok)
   \<and> Ext (AppendFile (ledger_line '' Ana@X.com '')) None \<in> set (snd run_ok)
   \<and> Ext (AppendFile (ledger_line ''bob@x.com'')) None \<in> set (snd run_ok)
   \<and> normalized '' Ana@X.com '' = ''ana@x.com''
   \<and> normalized '' Ana@X.com '' \<in> loadSentEmails (ledger (fst run_ok))
   \<and> send_attempts (snd (rerun env_ok ana_and_bob (ex_world () None))) = []"
proof -
  let ?ana = "toParticipant (ex_row ''Ana'' '' Ana@X.com '')"
  let ?bob = "toParticipant (ex_row ''Bob'' ''bob@x.com'')"
  have c: "complete_lines (ledger (ex_world () None))"
    by (simp add: complete_lines_def ex_world_def)
  have r1: "main env_ok ana_and_bob (ex_world () None) = (fst run_ok, snd run_ok)"
    by (simp add: run_ok_def)
  have r2: "main env_ok ana_and_bob (fst run_ok)
      = (fst (rerun env_ok ana_and_bob (ex_world () None)),
         snd (rerun env_ok ana_and_bob (ex_world () None)))"
    by (simp add: rerun_def run_ok_def)
  note inv = idempotent_rerun [OF c r1 r2]
  have sa: "Ext (SendMail (mailOptions env_ok ana_certificado)) None \<in> set (snd run_ok)"
    and sb: "Ext (SendMail (mailOptions env_ok bob_certificado)) None \<in> set (snd run_ok)"
    and wa: "Ext (AppendFile (ledger_line '' Ana@X.com '')) None \<in> set (snd run_ok)"
    and wb: "Ext (AppendFile (ledger_line ''bob@x.com'')) None \<in> set (snd run_ok)"
    by (simp_all add: run_ok_def ana_and_bob_def ana_certificado_def bob_certificado_def run_simps)
  have na: "normalized '' Ana@X.com '' = ''ana@x.com''"
    and nb: "normalized ''bob@x.com'' = ''bob@x.com''"
    by (simp_all add: run_simps)
  have ea: "email ?ana = Some '' Ana@X.com ''" and eb: "email ?bob = Some ''bob@x.com''"
    by (simp_all add: toParticipant_def ex_row_def col_name_def col_email_def)
  have ta: "mail_to (mailOptions env_ok ana_certificado) = Some '' Ana@X.com ''"
    and tb: "mail_to (mailOptions env_ok bob_certificado) = Some ''bob@x.com''"
    by (simp_all add: mail_to_mailOptions ana_certificado_def bob_certificado_def ea eb)
  have oa: "normalized '' Ana@X.com '' \<noteq> [] \<and> LF \<notin> set (normalized '' Ana@X.com '')"
    unfolding na by (simp add: LF_def)
  have ob: "normalized ''bob@x.com'' \<noteq> [] \<and> LF \<notin> set (normalized ''bob@x.com'')"
    unfolding nb by (simp add: LF_def)
  from inv sa ta wa oa have m: "normalized '' Ana@X.com '' \<in> loadSentEmails (ledger (fst run_ok))"
    by blast
  have r: "fst (lerCSV (loadSentEmails (ledger (ex_world () None))) ana_and_bob)
      = Resolved [?ana, ?bob]"
    by (simp add: ana_and_bob_def run_simps)
  have all_sent: "\<exists>m e. Ext (SendMail m) None \<in> set (snd run_ok) \<and> mail_to m = Some e
      \<and> email p = Some e \<and> Ext (AppendFile (ledger_line e)) None \<in> set (snd run_ok)
      \<and> normalized e \<noteq> [] \<and> LF \<notin> set (normalized e)"
    if "fst (lerCSV (loadSentEmails (ledger (ex_world () None))) ana_and_bob) = Resolved ps
      \<and> p \<in> set ps" for ps p
  proof -
    from that r have "p = ?ana \<or> p = ?bob" by auto
    then show ?thesis
    proof
      assume "p = ?ana"
      with sa ta ea wa oa show ?thesis by blast
    next
      assume "p = ?bob"
      with sb tb eb wb ob show ?thesis by blast
    qed
  qed
  from inv all_sent have z: "send_attempts (snd (rerun env_ok ana_and_bob (ex_world () None))) = []"
    by blast
  from c sa sb wa wb na m z show ?thesis by blast
qed

text \<open>
  C2, as stated, fails. A roster row whose address cell is empty: the normalized address,
  the empty string, is not in the loaded ledger set, and yet the participant is not
  retained.
\<close>

theorem empty_address_not_retained:
  "normalized [] \<notin> loadSentEmails None
   \<and> fst (lerCSV (loadSentEmails None) (ex_roster [ex_row ''Bob'' []])) = Resolved []"
  by (simp add: run_simps)

text \<open>
  C2, amended. For every roster and every ledger file, the participants that \<open>lerCSV\<close>
  resolves with, the ones rendered and sent to, are exactly the rows, in order, whose
  address is a non-empty string and whose trimmed, lower-cased address is not in the set
  loaded from the ledger. A ledger holding \<open>alice@example.com\<close> makes the row with the
  address \<open>"  Alice@Example.com "\<close> a duplicate: nobody is retained.
\<close>

theorem dedup_filter:
  "fst (lerCSV (loadSentEmails f) (Http True (map Data rows @ End # rest)))
     = Resolved (filter (\<lambda>p. truthy (email p)
                   \<and> normalized (js_String (email p)) \<notin> loadSentEmails f)
                 (map toParticipant rows))
   \<and> fst (lerCSV (loadSentEmails (Some (''alice@example.com'' @ [LF])))
         (ex_roster [ex_row ''Alice'' ''  Alice@Example.com ''])) = Resolved []"
proof -
  have "is_new (loadSentEmails f) = (\<lambda>p. truthy (email p)
      \<and> normalized (js_String (email p)) \<notin> loadSentEmails f)"
    by (rule ext) (rule is_new_truthy)
  then have "fst (lerCSV (loadSentEmails f) (Http True (map Data rows @ End # rest)))
     = Resolved (filter (\<lambda>p. truthy (email p)
                   \<and> normalized (js_String (email p)) \<notin> loadSentEmails f)
                 (map toParticipant rows))"
    by (simp add: lerCSV_resolved)
  moreover have "fst (lerCSV (loadSentEmails (Some (''alice@example.com'' @ [LF])))
         (ex_roster [ex_row ''Alice'' ''  Alice@Example.com ''])) = Resolved []"
    by (simp add: run_simps)
  ultimately show ?thesis by blast
qed

text \<open>Ana twice under different spellings, then Bia, against a ledger holding Ana.\<close>

theorem dedup_filter_witness:
  "fst (lerCSV (loadSentEmails (Some (''ana@x.com'' @ [LF]))) (ex_roster [ana, ex_row ''Ana'' '' ANA@x.com '', bia]))
     = Resolved [toParticipant bia]"
  using dedup_filter [of "Some (''ana@x.com'' @ [LF])" "[ana, ex_row ''Ana'' '' ANA@x.com '', bia]" "[]"]
  by (simp add: ana_def bia_def run_simps)




text \<open>
  C6, as stated, fails. A row that has no address column gives a participant whose
  address is \<open>undefined\<close>, not the empty string.
\<close>

theorem missing_email_is_undefined:
  "email (toParticipant no_address_row) = None
   \<and> email (toParticipant no_address_row) \<noteq> Some []"
  by (simp add: no_address_row_def run_simps)

text \<open>
  C6, amended. A row without the address column gives a participant whose address is
  \<open>undefined\<close>. The filter leaves that participant out whatever the ledger holds, the
  rows around it are parsed and filtered as they would be without it, the run goes to its
  end, and no message is sent to an undefined address.
\<close>

theorem missing_email_column:
  assumes "r col_email = None"
  shows "email (toParticipant r) = None
    \<and> \<not> is_new S (toParticipant r)
    \<and> fst (lerCSV S (Http True (map Data (rows1 @ r # rows2) @ End # rest)))
        = Resolved (filter (is_new S) (map toParticipant rows1)
                    @ filter (is_new S) (map toParticipant rows2))
    \<and> last (snd (main env (Http True (map Data (rows1 @ r # rows2) @ End # rest)) w))
        = Console Finished
    \<and> (\<forall>m. m \<in> set (send_attempts
                (snd (main env (Http True (map Data (rows1 @ r # rows2) @ End # rest)) w)))
          \<longrightarrow> mail_to m \<noteq> None)"
proof -
  let ?resp = "Http True (map Data (rows1 @ r # rows2) @ End # rest)"
  have e: "email (toParticipant r) = None"
    using assms by (simp add: toParticipant_def)
  then have n: "\<not> is_new S (toParticipant r)" for S
    by (simp add: is_new_def)
  have f: "fst (lerCSV S ?resp) = Resolved (filter (is_new S) (map toParticipant rows1)
        @ filter (is_new S) (map toParticipant rows2))" for S
    using n lerCSV_resolved [of S "rows1 @ r # rows2" rest] by simp
  have l: "last (snd (main env ?resp w)) = Console Finished"
    using f by (rule main_finishes)
  have s: "mail_to m \<noteq> None" if "m \<in> set (send_attempts (snd (main env ?resp w)))" for m
    using main_attempts [of env ?resp w "fst (main env ?resp w)" "snd (main env ?resp w)" m] that
    by auto
  from e n f l s show ?thesis by blast
qed

text \<open>A row with a name only, between Ana and Caio.\<close>

theorem missing_email_column_witness:
  "no_address_row col_email = None
   \<and> fst (lerCSV {} (ex_roster [ana, no_address_row, caio]))
       = Resolved [toParticipant ana, toParticipant caio]
   \<and> map mail_to (send_attempts (snd (main env_ok (ex_roster [ana, no_address_row, caio])
        (ex_world () None)))) = [Some ''ana@x.com'', Some ''caio@x.com'']"
proof -
  have h: "no_address_row col_email = None"
    by (simp add: no_address_row_def col_name_def col_email_def)
  from missing_email_column [where r = no_address_row and S = "{}" and ?rows1.0 = "[ana]"
      and ?rows2.0 = "[caio]" and rest = "[]" and env = env_ok and w = "ex_world () None", OF h]
  have "fst (lerCSV {} (ex_roster [ana, no_address_row, caio]))
       = Resolved (filter (is_new {}) (map toParticipant [ana])
                    @ filter (is_new {}) (map toParticipant [caio]))"
    by (simp add: ex_roster_def)
  then have a: "fst (lerCSV {} (ex_roster [ana, no_address_row, caio]))
       = Resolved [toParticipant ana, toParticipant caio]"
    by (simp add: ana_def caio_def toParticipant_def is_new_def ex_row_def
        col_code_def col_name_def col_registration_def col_email_def)
  have b: "map mail_to (send_attempts (snd (main env_ok (ex_roster [ana, no_address_row, caio])
        (ex_world () None)))) = [Some ''ana@x.com'', Some ''caio@x.com'']"
    by (simp add: no_address_row_def ana_def caio_def run_simps)
  from h a b show ?thesis by blast
qed

text \<open>
  C4. For a batch of three participants where the rendering of the first and of the third
  succeeds and the rendering of the second throws: \<open>gerarCertificados\<close> returns the
  certificates of the first and the third, in order, the failure of the second is reported
  on the console between their renderings, and the sending that follows calls the
  transport for the first and the third and for nobody else. In general \<open>gerarPDF\<close> is
  entered once for every participant of the batch, in order, whatever the earlier
  renderings did, and the transport is called once for every certificate, in order,
  whatever the earlier sends did.
\<close>

theorem partial_failure_isolation:
  "(gerarPDF env ''certificate.html'' a w = (Inr pa, wa, ea)
      \<and> gerarPDF env ''certificate.html'' b wa = (Inl err, wb, eb)
      \<and> gerarPDF env ''certificate.html'' c wb = (Inr pc, wc, ec) \<longrightarrow>
    gerarCertificados env [a, b, c] w
      = ([\<lparr>participant = a, certificate = pa\<rparr>, \<lparr>participant = c, certificate = pc\<rparr>], wc,
         Console (Generating 3) # ea @ eb @ Console (RenderFailed (js_String (name b)) err) # ec
           @ [Console AllGenerated])
    \<and> send_attempts (snd (enviarCertificadosPorEmail env
          [\<lparr>participant = a, certificate = pa\<rparr>, \<lparr>participant = c, certificate = pc\<rparr>] wc))
      = [mailOptions env \<lparr>participant = a, certificate = pa\<rparr>,
         mailOptions env \<lparr>participant = c, certificate = pc\<rparr>])
   \<and> render_attempts (snd (snd (gerarCertificados env ps w0))) = map (\<lambda>p. js_String (name p)) ps
   \<and> send_attempts (snd (enviarCertificadosPorEmail env cs w0)) = map (mailOptions env) cs"
proof -
  have "gerarCertificados env [a, b, c] w
      = ([\<lparr>participant = a, certificate = pa\<rparr>, \<lparr>participant = c, certificate = pc\<rparr>], wc,
         Console (Generating 3) # ea @ eb @ Console (RenderFailed (js_String (name b)) err) # ec
           @ [Console AllGenerated])"
    if "gerarPDF env ''certificate.html'' a w = (Inr pa, wa, ea)"
      "gerarPDF env ''certificate.html'' b wa = (Inl err, wb, eb)"
      "gerarPDF env ''certificate.html'' c wb = (Inr pc, wc, ec)"
    using that by (simp add: gerarCertificados_def)
  then show ?thesis
    by (simp add: enviar_attempts gerarCertificados_attempts)
qed

text \<open>Ana, Bia and Caio, where the PDF of Bia cannot be written.\<close>

theorem partial_failure_witness:
  "fst render_ana = Inr ''/app/pdfs/Ana - (ana@x.com).pdf''
   \<and> fst render_bia = Inl ''EACCES''
   \<and> fst render_caio = Inr ''/app/pdfs/Caio - (caio@x.com).pdf''
   \<and> map participant (fst (gerarCertificados bia_unprintable
        [toParticipant ana, toParticipant bia, toParticipant caio] (ex_world () None)))
      = [toParticipant ana, toParticipant caio]
   \<and> map mail_to (send_attempts (snd (main bia_unprintable (ex_roster [ana, bia, caio])
        (ex_world () None)))) = [Some ''ana@x.com'', Some ''caio@x.com'']"
proof -
  have a: "fst render_ana = Inr ''/app/pdfs/Ana - (ana@x.com).pdf''"
    by (simp add: render_ana_def bia_unprintable_def ana_def run_simps)
  have b: "fst render_bia = Inl ''EACCES''"
    by (simp add: render_bia_def render_ana_def bia_unprintable_def ana_def bia_def run_simps)
  have c: "fst render_caio = Inr ''/app/pdfs/Caio - (caio@x.com).pdf''"
    by (simp add: render_caio_def render_bia_def render_ana_def bia_unprintable_def
        ana_def bia_def caio_def run_simps)
  have ra: "gerarPDF bia_unprintable ''certificate.html'' (toParticipant ana) (ex_world () None)
      = (Inr ''/app/pdfs/Ana - (ana@x.com).pdf'', fst (snd render_ana), snd (snd render_ana))"
    using a by (simp add: render_ana_def prod_eq_iff)
  have rb: "gerarPDF bia_unprintable ''certificate.html'' (toParticipant bia) (fst (snd render_ana))
      = (Inl ''EACCES'', fst (snd render_bia), snd (snd render_bia))"
    using b by (simp add: render_bia_def prod_eq_iff)
  have rc: "gerarPDF bia_unprintable ''certificate.html'' (toParticipant caio) (fst (snd render_bia))
      = (Inr ''/app/pdfs/Caio - (caio@x.com).pdf'', fst (snd render_caio), snd (snd render_caio))"
    using c by (simp add: render_caio_def prod_eq_iff)
  from partial_failure_isolation [where env = bia_unprintable and a = "toParticipant ana"
      and b = "toParticipant bia" and c = "toParticipant caio" and w = "ex_world () None"]
    ra rb rc
  have "gerarCertificados bia_unprintable
      [toParticipant ana, toParticipant bia, toParticipant caio] (ex_world () None)
      = ([\<lparr>participant = toParticipant ana, certificate = ''/app/pdfs/Ana - (ana@x.com).pdf''\<rparr>,
          \<lparr>participant = toParticipant caio, certificate = ''/app/pdfs/Caio - (caio@x.com).pdf''\<rparr>],
         fst (snd render_caio),
         Console (Generating 3) # snd (snd render_ana) @ snd (snd render_bia)
           @ Console (RenderFailed (js_String (name (toParticipant bia))) ''EACCES'')
           # snd (snd render_caio) @ [Console AllGenerated])"
    by blast
  then have d: "map participant (fst (gerarCertificados bia_unprintable
        [toParticipant ana, toParticipant bia, toParticipant caio] (ex_world () None)))
      = [toParticipant ana, toParticipant caio]"
    by simp
  have e: "map mail_to (send_attempts (snd (main bia_unprintable (ex_roster [ana, bia, caio])
        (ex_world () None)))) = [Some ''ana@x.com'', Some ''caio@x.com'']"
    by (simp add: bia_unprintable_def ana_def bia_def caio_def run_simps)
  from a b c d e show ?thesis by blast
qed




text \<open>
  C8 does not hold of the code for every participant: the name is handed to \<open>replace\<close>
  as the replacement text, where a dollar sign is special. For the name \<open>Ca$$h\<close> the
  page content gets \<open>Ca$h\<close>, while the file name keeps the name as it is.
\<close>

theorem dollar_name_not_verbatim:
  "js_replace ''<h1>{{participant.name}}</h1>'' ''{{participant.name}}'' ''Ca$$h'' = ''<h1>Ca$h</h1>''
   \<and> calls (snd (snd (gerarPDF env_ok ''certificate.html'' cash (ex_world () None))))
       = [Goto ''file:///app/templates/certificate.html'',
          SetContent ''<h1>Ca$h</h1>'',
          Pdf ''/app/pdfs/Ca$$h - (c@x.com).pdf'']"
  by (simp add: cash_def run_simps)

text \<open>
  X1. The example of the specification: rendering the participant with the name
  \<open>Ana Silva\<close> and the address \<open>ana@x.com\<close> prints the template with the placeholder
  replaced by the name and writes the file \<open>Ana Silva - (ana@x.com).pdf\<close> in the \<open>pdfs\<close>
  directory. The replacement is of the first occurrence only and is case-sensitive.
\<close>

theorem render_ana_silva:
  "fst (gerarPDF env_ok ''certificate.html'' ana_silva (ex_world () None))
       = Inr ''/app/pdfs/Ana Silva - (ana@x.com).pdf''
   \<and> path_basename ''/app/pdfs/Ana Silva - (ana@x.com).pdf'' = ''Ana Silva - (ana@x.com).pdf''
   \<and> calls (snd (snd (gerarPDF env_ok ''certificate.html'' ana_silva (ex_world () None))))
       = [Goto ''file:///app/templates/certificate.html'',
          SetContent ''<h1>Ana Silva</h1>'',
          Pdf ''/app/pdfs/Ana Silva - (ana@x.com).pdf'']
   \<and> js_replace ''{{PARTICIPANT.NAME}} {{participant.name}} {{participant.name}}''
         ''{{participant.name}}'' ''Ana Silva''
       = ''{{PARTICIPANT.NAME}} Ana Silva {{participant.name}}''"
  by (simp add: ana_silva_def path_basename_def run_simps)

text \<open>
  X2. For a name without a dollar sign, \<open>replace\<close> leaves a text without the pattern as
  it is, and otherwise puts the name, as it is, in the place of the first occurrence of
  the pattern.
\<close>

theorem replace_plain_name:
  assumes "CHR 0x24 \<notin> set n"
  shows "(find_first pat s = None \<longrightarrow> js_replace s pat n = s)
    \<and> (\<forall>pre post. find_first pat s = Some (pre, post) \<longrightarrow>
          s = pre @ pat @ post
          \<and> (\<forall>k < length pre. take (length pat) (drop k s) \<noteq> pat)
          \<and> js_replace s pat n = pre @ n @ post)"
  using assms find_first_Some [of pat s]
  by (auto simp add: js_replace_def getSubstitution_plain)

theorem replace_plain_name_witness:
  "CHR 0x24 \<notin> set ''Ana Silva''
   \<and> find_first ''{{participant.name}}'' ''<h1>{{participant.name}}</h1>'' = Some (''<h1>'', ''</h1>'')
   \<and> js_replace ''<h1>{{participant.name}}</h1>'' ''{{participant.name}}'' ''Ana Silva''
       = ''<h1>Ana Silva</h1>''"
proof -
  have h: "CHR 0x24 \<notin> set ''Ana Silva''" by simp
  have f: "find_first ''{{participant.name}}'' ''<h1>{{participant.name}}</h1>''
      = Some (''<h1>'', ''</h1>'')"
    by simp
  from replace_plain_name [OF h, of "''{{participant.name}}''" "''<h1>{{participant.name}}</h1>''"] f
  have "js_replace ''<h1>{{participant.name}}</h1>'' ''{{participant.name}}'' ''Ana Silva''
      = ''<h1>'' @ ''Ana Silva'' @ ''</h1>''"
    by blast
  with h f show ?thesis by simp
qed

text \<open>
  X3. The path of the PDF is a function of the working directory, the name and the
  address: a second rendering of the same participant writes the same file, so the set of
  files written does not grow. Rendering leaves the ledger as it is.
\<close>

theorem rerender_overwrites:
  assumes "gerarPDF env t p w = (Inr path, w1, ev1)"
    and "gerarPDF env t p w1 = (Inr path', w2, ev2)"
  shows "path = pdf_path env p \<and> path' = path
    \<and> dom (pdfs w1) = insert path (dom (pdfs w))
    \<and> dom (pdfs w2) = dom (pdfs w1)
    \<and> ledger w2 = ledger w"
proof -
  have g: "r = Inr q \<Longrightarrow> q = pdf_path env p \<and> dom (pdfs w') = insert q (dom (pdfs w0))
      \<and> ledger w' = ledger w0"
    if "gerarPDF env t p w0 = (r, w', evs)" for w0 r w' evs q
    using that
    by (auto simp add: gerarPDF_def Let_def pdf_path_def split: prod.splits option.splits
        dest!: perform_frame)
  from g [OF assms(1)] g [OF assms(2)] show ?thesis by auto
qed

theorem rerender_overwrites_witness:
  "fst (gerarPDF env_ok ''certificate.html'' ana_silva (ex_world () None))
       = Inr ''/app/pdfs/Ana Silva - (ana@x.com).pdf''
   \<and> dom (pdfs (fst (snd (gerarPDF env_ok ''certificate.html'' ana_silva
         (fst (snd (gerarPDF env_ok ''certificate.html'' ana_silva (ex_world () None))))))))
       = {''/app/pdfs/Ana Silva - (ana@x.com).pdf''}"
proof -
  let ?g1 = "gerarPDF env_ok ''certificate.html'' ana_silva (ex_world () None)"
  let ?g2 = "gerarPDF env_ok ''certificate.html'' ana_silva (fst (snd ?g1))"
  have a: "fst ?g1 = Inr ''/app/pdfs/Ana Silva - (ana@x.com).pdf''"
    by (simp add: ana_silva_def run_simps)
  have b: "fst ?g2 = Inr ''/app/pdfs/Ana Silva - (ana@x.com).pdf''"
    by (simp add: ana_silva_def run_simps)
  have 1: "?g1 = (Inr ''/app/pdfs/Ana Silva - (ana@x.com).pdf'', fst (snd ?g1), snd (snd ?g1))"
    using a by (simp add: prod_eq_iff)
  have 2: "?g2 = (Inr ''/app/pdfs/Ana Silva - (ana@x.com).pdf'', fst (snd ?g2), snd (snd ?g2))"
    using b by (simp add: prod_eq_iff)
  from rerender_overwrites [OF 1 2]
  have "dom (pdfs (fst (snd ?g2))) = insert ''/app/pdfs/Ana Silva - (ana@x.com).pdf''
      (dom (pdfs (ex_world () None)))"
    by simp
  then have "dom (pdfs (fst (snd ?g2))) = {''/app/pdfs/Ana Silva - (ana@x.com).pdf''}"
    by (simp add: ex_world_def)
  with a show ?thesis by blast
qed

end
